theory Spec2Isabelle
  imports Main "HOL-Library.Char_ord" "HOL-Library.List_Lexorder" "HOL-Library.Multiset"
    "HOL-Library.Sublist" "HOL-Library.AList"
begin

section \<open>Strings and arrays as the minifier uses them\<close>

text \<open>
  Strings are lists of characters. \<open>Array.prototype.join\<close> puts the separator between
  consecutive elements and yields the empty string on an empty array.
\<close>

fun join_str :: "string \<Rightarrow> string list \<Rightarrow> string" where
  "join_str sep [] = []"
| "join_str sep [x] = x"
| "join_str sep (x # y # ys) = x @ sep @ join_str sep (y # ys)"

text \<open>
  The whitespace class \<open>\s\<close> of the regular expressions. A character is a code unit
  below 256; there \<open>\s\<close> matches tab, line feed, vertical tab, form feed, carriage return,
  space and the no-break space U+00A0. (The other blanks of \<open>\s\<close>, U+1680, U+2000 to
  U+200A, U+2028, U+2029, U+202F, U+205F, U+3000 and U+FEFF, lie above this range.)
\<close>

definition is_space :: "char \<Rightarrow> bool" where
  "is_space c =
     (c \<in> {CHR 0x09, CHR 0x0A, CHR 0x0B, CHR 0x0C, CHR 0x0D, CHR '' '', CHR 0xA0})"

text \<open>
  \<open>s.split(/\s+/)\<close>: every maximal run of whitespace is one separator. The scan keeps
  the piece read so far in \<open>cur\<close>; the result is never empty, and a leading or trailing
  run leaves an empty first or last piece.
\<close>

function split_ws_from :: "string \<Rightarrow> string \<Rightarrow> string list" where
  "split_ws_from cur [] = [cur]"
| "split_ws_from cur (c # cs) =
     (if is_space c then cur # split_ws_from [] (dropWhile is_space cs)
      else split_ws_from (cur @ [c]) cs)"
  by pat_completeness auto
termination
  by (relation "measure (\<lambda>(cur, s). length s)") (auto simp: le_imp_less_Suc length_dropWhile_le)

definition split_ws :: "string \<Rightarrow> string list" where
  "split_ws s = split_ws_from [] s"

text \<open>\<open>s.split(' ')\<close>: every single space is one separator.\<close>

fun split_sp_from :: "string \<Rightarrow> string \<Rightarrow> string list" where
  "split_sp_from cur [] = [cur]"
| "split_sp_from cur (c # cs) =
     (if c = CHR '' '' then cur # split_sp_from [] cs
      else split_sp_from (cur @ [c]) cs)"

definition split_sp :: "string \<Rightarrow> string list" where
  "split_sp s = split_sp_from [] s"

text \<open>
  \<open>new Set(xs)\<close> followed by \<open>Array.from\<close>: the distinct elements in the order of their
  first occurrence.
\<close>

definition Set_add :: "'a list \<Rightarrow> 'a \<Rightarrow> 'a list" where
  "Set_add acc x = (if x \<in> set acc then acc else acc @ [x])"

definition new_Set :: "'a list \<Rightarrow> 'a list" where
  "new_Set xs = foldl Set_add [] xs"

section \<open>Prefix inference\<close>

text \<open>
  \<open>findPrefix\<close>: the loop advances \<open>i\<close> while the first word has a character at \<open>i\<close> and
  every word has that same character at \<open>i\<close> (a word that is exhausted reads
  \<open>undefined\<close> there, which is not equal to a character).
\<close>

function findPrefix_loop :: "string list \<Rightarrow> nat \<Rightarrow> nat" where
  "findPrefix_loop words i =
     (if i < length (hd words) \<and> list_all (\<lambda>w. i < length w \<and> w ! i = hd words ! i) words
      then findPrefix_loop words (Suc i) else i)"
  by pat_completeness auto
termination
  by (relation "measure (\<lambda>(words, i). length (hd words) - i)") auto

definition findPrefix :: "string list \<Rightarrow> string" where
  "findPrefix words =
     (case words of
        [] \<Rightarrow> []
      | w0 # rest \<Rightarrow>
          if w0 = [] \<or> length words = 1 then w0
          else take (findPrefix_loop words 0) w0)"

text \<open>
  \<open>CSSParser.getPrefixFromIconClasses\<close>: \<open>arr\<close> is the icon-class set listed in insertion
  order. On an empty set all four samples are \<open>undefined\<close> and \<open>findPrefix\<close> returns the
  empty string.
\<close>

definition samples :: "string list \<Rightarrow> string list" where
  "samples arr = map (\<lambda>i. arr ! (i * length arr div 4)) [0, 1, 2, 3]"

definition getPrefixFromIconClasses :: "string list \<Rightarrow> string" where
  "getPrefixFromIconClasses arr = (if arr = [] then [] else findPrefix (samples arr))"

section \<open>Icons and their classification\<close>

record Icon =
  name :: string
  modifiers :: "string list"

datatype error =
    NoFontsAdded
  | NoCodepointFound string
  | CouldNotFindGlyphs nat string
  | MoreThanOneIconClass "string list"

text \<open>
  \<open>Icon.parse\<close>: the result is the thrown error, or the returned value (\<open>None\<close> for
  \<open>null\<close>) together with the lines written to the console.
\<close>

definition Icon_parse :: "string list \<Rightarrow> string list \<Rightarrow> error + (Icon option \<times> string list)" where
  "Icon_parse unparsed iconClasses =
     (let names = filter (\<lambda>cls. cls \<in> set iconClasses) unparsed in
      if length names > 1 then Inl (MoreThanOneIconClass names)
      else if length names = 0 then
        Inr (None, [''Detected icon with no name: '' @ join_str '' '' unparsed @ ''. (Skipping.)''])
      else Inr (Some \<lparr>name = hd names, modifiers = filter (\<lambda>cls. cls \<noteq> hd names) unparsed\<rparr>, []))"

text \<open>
  Step 5 of \<open>IconMinifier.minify\<close>: every crawled combination is parsed and the \<open>null\<close>
  results are filtered out; an error thrown by one parse aborts the step.
\<close>

fun parseIcons :: "string list list \<Rightarrow> string list \<Rightarrow> error + (Icon list \<times> string list)" where
  "parseIcons [] iconClasses = Inr ([], [])"
| "parseIcons (u # us) iconClasses =
     (case Icon_parse u iconClasses of
        Inl e \<Rightarrow> Inl e
      | Inr (r, out) \<Rightarrow>
          (case parseIcons us iconClasses of
             Inl e \<Rightarrow> Inl e
           | Inr (icons, outs) \<Rightarrow>
               Inr ((case r of None \<Rightarrow> icons | Some icon \<Rightarrow> icon # icons), out @ outs)))"

text \<open>
  \<open>Crawler.findIcons\<close>, after the regular-expression scan of the files: \<open>matches\<close> is what
  \<open>findByRegex\<close> returned. Each match is split on whitespace, sorted, rejoined with single
  spaces; the distinct results are split back into token lists.
\<close>

definition canonical :: "string \<Rightarrow> string" where
  "canonical s = join_str '' '' (sort (split_ws s))"

definition findIcons :: "string list \<Rightarrow> string list list" where
  "findIcons matches = map split_sp (new_Set (map canonical matches))"

section \<open>The subsetting engine\<close>

text \<open>
  A glyph of the font codec: the engine reads and rewrites only its \<open>unicode\<close> array;
  \<open>outline\<close> stands for the rest of the glyph's data, which the deep clone
  \<open>JSON.parse(JSON.stringify(g))\<close> copies unchanged.
\<close>

record Glyph =
  unicode :: "nat list"
  outline :: string

text \<open>
  \<open>FontFace\<close>. The field \<open>font\<close> is the loaded codec handle. The engine observes it only
  through \<open>font.find({ unicode: [codepoint] })\<close>, so the field holds that lookup: the
  glyphs the codec returns for a codepoint. A descriptor object is created once by the
  stylesheet parser and added once to \<open>FontManager.ffs\<close>; its identity (the key of
  \<open>oldCodepointsToNew\<close>) is its position in \<open>ffs\<close>.
\<close>

record FontFace =
  family :: string
  style :: string
  weight :: string
  srcs :: "string list"
  clss :: "string list"
  font :: "nat \<Rightarrow> Glyph list"

text \<open>
  The variables that the closures of \<open>FontManager.minify\<close> share. \<open>Map<number, string[]>\<close>
  keeps its keys in insertion order and is an association list; \<open>AList.update\<close> is
  \<open>Map.prototype.set\<close> (in place on a present key, appended otherwise).
\<close>

record MinifyState =
  glyfs :: "Glyph list"
  oldCodepointsToNew :: "nat \<Rightarrow> nat \<rightharpoonup> nat"
  newCodepointsToClasses :: "(nat \<times> string list) list"
  newCodepoint_value :: nat

text \<open>The test \<open>!v\<close> on a value of type \<open>number | null | undefined\<close>.\<close>

definition falsy :: "nat option \<Rightarrow> bool" where
  "falsy v = (case v of None \<Rightarrow> True | Some n \<Rightarrow> n = 0)"

definition intersection :: "'a list \<Rightarrow> 'a list list \<Rightarrow> 'a list" where
  "intersection a args = filter (\<lambda>e. list_all (\<lambda>a2. e \<in> set a2) args) a"

definition toIconSelector :: "Icon \<Rightarrow> string" where
  "toIconSelector icon = ''.'' @ name icon @ ''.'' @ join_str ''.'' (modifiers icon)"

definition newCodepoint :: "MinifyState \<Rightarrow> nat \<times> MinifyState" where
  "newCodepoint s =
     (let val = newCodepoint_value s
      in (val, s\<lparr>newCodepoint_value := newCodepoint_value s + 1\<rparr>))"

definition addGlyph :: "FontFace list \<Rightarrow> nat \<Rightarrow> nat \<Rightarrow> MinifyState \<Rightarrow> nat option \<times> MinifyState" where
  "addGlyph ffs k codepoint s =
     (case font (ffs ! k) codepoint of
        [] \<Rightarrow> (None, s)
      | g # _ \<Rightarrow>
          if falsy (oldCodepointsToNew s k codepoint) then
            (let (newcp, s1) = newCodepoint s;
                 s2 = s1\<lparr>oldCodepointsToNew :=
                         (oldCodepointsToNew s1)(k := (oldCodepointsToNew s1 k)(codepoint \<mapsto> newcp))\<rparr>;
                 s3 = s2\<lparr>glyfs := glyfs s2 @ [g\<lparr>unicode := [newcp]\<rparr>]\<rparr>
             in (Some newcp, s3))
          else (oldCodepointsToNew s k codepoint, s))"

definition registerMapping :: "nat \<Rightarrow> Icon \<Rightarrow> MinifyState \<Rightarrow> MinifyState" where
  "registerMapping newcp icon s =
     (let m = (if map_of (newCodepointsToClasses s) newcp = None
               then AList.update newcp [] (newCodepointsToClasses s)
               else newCodepointsToClasses s)
      in s\<lparr>newCodepointsToClasses :=
             AList.update newcp (the (map_of m newcp) @ [toIconSelector icon]) m\<rparr>)"

definition hasIntersection :: "FontFace \<Rightarrow> Icon \<Rightarrow> bool" where
  "hasIntersection ff icon = (length (intersection (clss ff) [modifiers icon]) \<ge> 1)"

text \<open>\<open>this.ffs.filter(ff => hasIntersection(ff, icon))\<close>, as positions in \<open>ffs\<close>.\<close>

definition matching :: "FontFace list \<Rightarrow> Icon \<Rightarrow> nat list" where
  "matching ffs icon = filter (\<lambda>k. hasIntersection (ffs ! k) icon) [0..<length ffs]"

text \<open>
  The direct resolution, written twice in the source (the matched descriptor of the
  multi-variant loop, and the single-variant loop): \<open>addGlyph\<close>, throw when the result is
  falsy, else \<open>registerMapping\<close>.
\<close>

definition useFont :: "FontFace list \<Rightarrow> nat \<Rightarrow> nat \<Rightarrow> Icon \<Rightarrow> MinifyState \<Rightarrow> error + MinifyState" where
  "useFont ffs k cp icon s =
     (case addGlyph ffs k cp s of
        (newcp, s1) \<Rightarrow>
          if falsy newcp then Inl (CouldNotFindGlyphs cp (name icon))
          else Inr (registerMapping (the newcp) icon s1))"

text \<open>
  The body of \<open>this.ffs.forEach\<close> in the fallback: a falsy result of \<open>addGlyph\<close> returns
  from the callback; otherwise every class of the descriptor registers a clone of the
  icon with that class pushed onto its modifiers.
\<close>

definition expandInto :: "FontFace list \<Rightarrow> nat \<Rightarrow> Icon \<Rightarrow> nat \<Rightarrow> MinifyState \<Rightarrow> MinifyState" where
  "expandInto ffs cp icon k s =
     (case addGlyph ffs k cp s of
        (newcp, s1) \<Rightarrow>
          if falsy newcp then s1
          else fold (\<lambda>cls. registerMapping (the newcp) (icon\<lparr>modifiers := modifiers icon @ [cls]\<rparr>))
                 (clss (ffs ! k)) s1)"

definition minifyIconMulti ::
  "FontFace list \<Rightarrow> (string \<rightharpoonup> nat) \<Rightarrow> Icon \<Rightarrow> MinifyState \<Rightarrow> error + MinifyState" where
  "minifyIconMulti ffs iconToCodepoint icon s =
     (if falsy (iconToCodepoint (name icon)) then Inl (NoCodepointFound (name icon))
      else
        (let cp = the (iconToCodepoint (name icon)) in
         case matching ffs icon of
           [] \<Rightarrow> Inr (fold (expandInto ffs cp icon) [0..<length ffs] s)
         | k # _ \<Rightarrow> useFont ffs k cp icon s))"

definition minifyIconSingle ::
  "FontFace list \<Rightarrow> (string \<rightharpoonup> nat) \<Rightarrow> Icon \<Rightarrow> MinifyState \<Rightarrow> error + MinifyState" where
  "minifyIconSingle ffs iconToCodepoint icon s =
     (if falsy (iconToCodepoint (name icon)) then Inl (NoCodepointFound (name icon))
      else useFont ffs 0 (the (iconToCodepoint (name icon))) icon s)"

text \<open>\<open>for (const icon of icons)\<close>: a thrown error leaves the loop.\<close>

fun forIcons :: "(Icon \<Rightarrow> MinifyState \<Rightarrow> error + MinifyState) \<Rightarrow> Icon list \<Rightarrow> MinifyState
    \<Rightarrow> error + MinifyState" where
  "forIcons body [] s = Inr s"
| "forIcons body (icon # icons) s =
     (case body icon s of Inl e \<Rightarrow> Inl e | Inr s' \<Rightarrow> forIcons body icons s')"

definition initState :: "nat \<Rightarrow> MinifyState" where
  "initState base =
     \<lparr>glyfs = [], oldCodepointsToNew = (\<lambda>k. Map.empty), newCodepointsToClasses = [],
      newCodepoint_value = base\<rparr>"

text \<open>
  \<open>FontManager.minify\<close> up to the assembly of the output font, with the fonts loaded:
  the final values of the shared variables.
\<close>

definition minify_run ::
  "FontFace list \<Rightarrow> Icon list \<Rightarrow> (string \<rightharpoonup> nat) \<Rightarrow> nat \<Rightarrow> error + MinifyState" where
  "minify_run ffs icons iconToCodepoint base =
     (if length ffs = 0 then Inl NoFontsAdded
      else if length ffs > 1 then forIcons (minifyIconMulti ffs iconToCodepoint) icons (initState base)
      else forIcons (minifyIconSingle ffs iconToCodepoint) icons (initState base))"

text \<open>
  \<open>FontManager.minify\<close>: the glyph table of the returned font is the packed list
  \<open>glyfs\<close>; the second component is \<open>newCodepointsToClasses\<close>.
\<close>

definition minify ::
  "FontFace list \<Rightarrow> Icon list \<Rightarrow> (string \<rightharpoonup> nat) \<Rightarrow> nat
    \<Rightarrow> error + (Glyph list \<times> (nat \<times> string list) list)" where
  "minify ffs icons iconToCodepoint base =
     (case minify_run ffs icons iconToCodepoint base of
        Inl e \<Rightarrow> Inl e
      | Inr s \<Rightarrow> Inr (glyfs s, newCodepointsToClasses s))"

section \<open>Notions used in the statements\<close>

text \<open>All words have a character at position \<open>j\<close>, and it is the first word's.\<close>

definition agree_at :: "string list \<Rightarrow> nat \<Rightarrow> bool" where
  "agree_at words j = (\<forall>w\<in>set words. j < length w \<and> w ! j = hd words ! j)"

text \<open>The scan over the words stops at \<open>k\<close>: agreement below \<open>k\<close>, none at \<open>k\<close>.\<close>

definition scan_stop :: "string list \<Rightarrow> nat \<Rightarrow> bool" where
  "scan_stop words k = ((\<forall>j<k. agree_at words j) \<and> \<not> agree_at words k)"

text \<open>The icons that step 5 hands on, without the console lines.\<close>

definition icons_of :: "error + (Icon list \<times> string list) \<Rightarrow> error + Icon list" where
  "icons_of r = (case r of Inl e \<Rightarrow> Inl e | Inr (icons, out) \<Rightarrow> Inr icons)"

text \<open>
  The state of the shared counter during a pass started at \<open>base\<close>: the counter is
  \<open>base\<close> plus the number of packed glyphs, the packed glyphs carry the consecutive
  codepoints from \<open>base\<close>, recorded new codepoints lie below the counter and are pairwise
  distinct, and so do the keys of the selector map.
\<close>

definition counter_inv :: "nat \<Rightarrow> MinifyState \<Rightarrow> bool" where
  "counter_inv base s =
     (newCodepoint_value s = base + length (glyfs s)
      \<and> map unicode (glyfs s) = map (\<lambda>n. [n]) [base..<newCodepoint_value s]
      \<and> (\<forall>k cp n. oldCodepointsToNew s k cp = Some n \<longrightarrow> base \<le> n \<and> n < newCodepoint_value s)
      \<and> (\<forall>k cp k' cp' n. oldCodepointsToNew s k cp = Some n \<and> oldCodepointsToNew s k' cp' = Some n
            \<longrightarrow> k = k' \<and> cp = cp')
      \<and> fst ` set (newCodepointsToClasses s) \<subseteq> {base..<newCodepoint_value s})"

text \<open>
  Between two icons of a pass: the keys of the selector map are exactly the codepoints
  handed out, no key occurs twice, and no selector list is empty.
\<close>

definition selector_inv :: "nat \<Rightarrow> MinifyState \<Rightarrow> bool" where
  "selector_inv base s =
     (counter_inv base s
      \<and> fst ` set (newCodepointsToClasses s) = {base..<newCodepoint_value s}
      \<and> distinct (map fst (newCodepointsToClasses s))
      \<and> (\<forall>n l. (n, l) \<in> set (newCodepointsToClasses s) \<longrightarrow> l \<noteq> []))"

text \<open>
  The fallback expansion in the words of the specification, to be compared with the
  source's loop: for every descriptor, in order, that holds a glyph at the legacy codepoint,
  reuse the new codepoint recorded for the (descriptor, legacy codepoint) pair or allocate
  the counter's next value (recording it and packing the clone of the descriptor's first
  glyph under it), then register, for each associated class of the descriptor, the icon
  with that class added to its modifiers. A descriptor without the glyph leaves the state
  as it is.
\<close>

definition derivedIcon :: "Icon \<Rightarrow> string \<Rightarrow> Icon" where
  "derivedIcon icon cls = icon\<lparr>modifiers := modifiers icon @ [cls]\<rparr>"

definition allocateOrReuse :: "FontFace list \<Rightarrow> nat \<Rightarrow> nat \<Rightarrow> MinifyState \<Rightarrow> nat \<times> MinifyState" where
  "allocateOrReuse ffs k cp s =
     (case oldCodepointsToNew s k cp of
        Some n \<Rightarrow> (n, s)
      | None \<Rightarrow>
          (newCodepoint_value s,
           s\<lparr>glyfs := glyfs s @ [(hd (font (ffs ! k) cp))\<lparr>unicode := [newCodepoint_value s]\<rparr>],
             oldCodepointsToNew :=
               (oldCodepointsToNew s)(k := (oldCodepointsToNew s k)(cp \<mapsto> newCodepoint_value s)),
             newCodepoint_value := newCodepoint_value s + 1\<rparr>))"

definition expansion :: "FontFace list \<Rightarrow> nat \<Rightarrow> Icon \<Rightarrow> MinifyState \<Rightarrow> MinifyState" where
  "expansion ffs cp icon s =
     fold (\<lambda>k s. if font (ffs ! k) cp = [] then s
                  else (case allocateOrReuse ffs k cp s of
                          (n, s1) \<Rightarrow> fold (\<lambda>cls. registerMapping n (derivedIcon icon cls)) (clss (ffs ! k)) s1))
       [0..<length ffs] s"

text \<open>
  The (descriptor, legacy codepoint) pairs requested for one icon of a successful pass: the
  first matching descriptor of a multi-variant set, every descriptor holding a glyph at the
  codepoint when none matches, the only descriptor of a single-variant set.
  \<open>requestedFrom\<close> lists the distinct legacy codepoints requested from descriptor \<open>k\<close>
  over all icons.
\<close>

definition requests :: "FontFace list \<Rightarrow> (string \<rightharpoonup> nat) \<Rightarrow> Icon \<Rightarrow> (nat \<times> nat) list" where
  "requests ffs iconToCodepoint icon =
     (case iconToCodepoint (name icon) of
        None \<Rightarrow> []
      | Some cp \<Rightarrow>
          if length ffs > 1 then
            (case matching ffs icon of
               [] \<Rightarrow> map (\<lambda>k. (k, cp)) (filter (\<lambda>k. font (ffs ! k) cp \<noteq> []) [0..<length ffs])
             | k # _ \<Rightarrow> [(k, cp)])
          else [(0, cp)])"

definition requestedFrom :: "FontFace list \<Rightarrow> (string \<rightharpoonup> nat) \<Rightarrow> Icon list \<Rightarrow> nat \<Rightarrow> nat list" where
  "requestedFrom ffs iconToCodepoint icons k =
     remdups (map snd (filter (\<lambda>r. fst r = k) (concat (map (requests ffs iconToCodepoint) icons))))"

text \<open>
  With each request, the icons registered for it: the icon itself in a direct resolution,
  one derived icon per associated class of the descriptor in the fallback.
\<close>

definition resolutions :: "FontFace list \<Rightarrow> (string \<rightharpoonup> nat) \<Rightarrow> Icon \<Rightarrow> (nat \<times> nat \<times> Icon) list" where
  "resolutions ffs iconToCodepoint icon =
     (case iconToCodepoint (name icon) of
        None \<Rightarrow> []
      | Some cp \<Rightarrow>
          if length ffs > 1 then
            (case matching ffs icon of
               [] \<Rightarrow> concat (map (\<lambda>k. if font (ffs ! k) cp = [] then []
                                     else map (\<lambda>cls. (k, cp, derivedIcon icon cls)) (clss (ffs ! k)))
                              [0..<length ffs])
             | k # _ \<Rightarrow> [(k, cp, icon)])
          else [(0, cp, icon)])"

text \<open>
  The selector \<open>sel\<close> is listed under the new codepoint that descriptor \<open>k\<close> has recorded
  for the legacy codepoint \<open>cp\<close>.
\<close>

definition registered :: "MinifyState \<Rightarrow> nat \<Rightarrow> nat \<Rightarrow> string \<Rightarrow> bool" where
  "registered s k cp sel =
     (case oldCodepointsToNew s k cp of
        None \<Rightarrow> False
      | Some n \<Rightarrow>
          n \<noteq> 0 \<and> (case map_of (newCodepointsToClasses s) n of None \<Rightarrow> False | Some l \<Rightarrow> sel \<in> set l))"

text \<open>The body of whichever of the two loops of \<open>FontManager.minify\<close> runs.\<close>

definition iconStep ::
  "FontFace list \<Rightarrow> (string \<rightharpoonup> nat) \<Rightarrow> Icon \<Rightarrow> MinifyState \<Rightarrow> error + MinifyState" where
  "iconStep ffs iconToCodepoint icon s =
     (if length ffs > 1 then minifyIconMulti ffs iconToCodepoint icon s
      else minifyIconSingle ffs iconToCodepoint icon s)"

text \<open>Every codepoint handed out is recorded for a pair of some descriptor of the pass.\<close>

definition attrib_inv :: "nat \<Rightarrow> FontFace list \<Rightarrow> MinifyState \<Rightarrow> bool" where
  "attrib_inv base ffs s =
     (counter_inv base s
      \<and> (\<forall>n. base \<le> n \<and> n < newCodepoint_value s \<longrightarrow>
             (\<exists>k cp. k < length ffs \<and> oldCodepointsToNew s k cp = Some n)))"

section \<open>Example inputs\<close>

text \<open>
  A two-variant icon set in the manner of Font Awesome 6 (Scenario B of the specification):
  a brands face selected by \<open>fab\<close> or \<open>fa-brands\<close>, a solid face selected by \<open>fas\<close> or
  \<open>fa-solid\<close>; the star exists in both faces, and \<open>fa-home\<close> and \<open>fa-house\<close> are two
  classes of one legacy codepoint.
\<close>

definition brands :: FontFace where
  "brands = \<lparr>family = ''Font Awesome 6 Brands'', style = ''normal'', weight = ''400'',
     srcs = [''../webfonts/fa-brands-400.woff2''], clss = [''fab'', ''fa-brands''],
     font = (\<lambda>cp. if cp = 0xf1a0 then [\<lparr>unicode = [0xf1a0], outline = ''google''\<rparr>]
                  else if cp = 0xf005 then [\<lparr>unicode = [0xf005], outline = ''star (brands)''\<rparr>]
                  else [])\<rparr>"

definition solid :: FontFace where
  "solid = \<lparr>family = ''Font Awesome 6 Free'', style = ''normal'', weight = ''900'',
     srcs = [''../webfonts/fa-solid-900.woff2''], clss = [''fas'', ''fa-solid''],
     font = (\<lambda>cp. if cp = 0xf005 then [\<lparr>unicode = [0xf005], outline = ''star (solid)''\<rparr>]
                  else if cp = 0xf015 then [\<lparr>unicode = [0xf015, 0xe3af], outline = ''house''\<rparr>]
                  else if cp = 0xf007 then [\<lparr>unicode = [0xf007], outline = ''user''\<rparr>]
                  else [])\<rparr>"

definition fa_codepoints :: "string \<rightharpoonup> nat" where
  "fa_codepoints = [''fa-google'' \<mapsto> 0xf1a0, ''fa-star'' \<mapsto> 0xf005, ''fa-home'' \<mapsto> 0xf015,
     ''fa-house'' \<mapsto> 0xf015, ''fa-user'' \<mapsto> 0xf007]"

definition crawled :: "Icon list" where
  "crawled = [\<lparr>name = ''fa-google'', modifiers = [''fab'']\<rparr>,
              \<lparr>name = ''fa-star'', modifiers = []\<rparr>,
              \<lparr>name = ''fa-home'', modifiers = [''fas'']\<rparr>,
              \<lparr>name = ''fa-house'', modifiers = [''fa-solid'', ''fa-2x'']\<rparr>,
              \<lparr>name = ''fa-user'', modifiers = []\<rparr>]"

text \<open>A single-variant icon set in the manner of Font Awesome 4 (Scenario A).\<close>

definition fontawesome4 :: FontFace where
  "fontawesome4 = \<lparr>family = ''FontAwesome'', style = ''normal'', weight = ''normal'',
     srcs = [''../fonts/fontawesome-webfont.woff2''], clss = [''fa''],
     font = (\<lambda>cp. if cp = 0xf015 then [\<lparr>unicode = [0xf015], outline = ''home''\<rparr>]
                  else if cp = 0xf007 then [\<lparr>unicode = [0xf007], outline = ''user''\<rparr>]
                  else [])\<rparr>"

section \<open>Prefix inference: the scan computes the longest common prefix\<close>

declare findPrefix_loop.simps [simp del]

lemma findPrefix_loop_unfold:
  "findPrefix_loop words i =
     (if i < length (hd words) \<and> agree_at words i then findPrefix_loop words (Suc i) else i)"
  by (subst findPrefix_loop.simps) (simp add: agree_at_def list_all_iff)

lemma findPrefix_loop_ge: "i \<le> findPrefix_loop words i"
proof (induction words i rule: findPrefix_loop.induct)
  case (1 words i)
  show ?case
  proof (cases "i < length (hd words) \<and> agree_at words i")
    case True
    have c: "i < length (hd words) \<and> list_all (\<lambda>w. i < length w \<and> w ! i = hd words ! i) words"
      using True by (simp add: agree_at_def list_all_iff)
    have "Suc i \<le> findPrefix_loop words (Suc i)"
      by (rule "1.IH"[OF c])
    with True show ?thesis by (subst findPrefix_loop_unfold) simp
  next
    case False
    then show ?thesis by (subst findPrefix_loop_unfold) auto
  qed
qed

lemma findPrefix_loop_agree:
  "(\<forall>j<i. agree_at words j) \<Longrightarrow> (\<forall>j<findPrefix_loop words i. agree_at words j)"
proof (induction words i rule: findPrefix_loop.induct)
  case (1 words i)
  show ?case
  proof (cases "i < length (hd words) \<and> agree_at words i")
    case True
    have c: "i < length (hd words) \<and> list_all (\<lambda>w. i < length w \<and> w ! i = hd words ! i) words"
      using True by (simp add: agree_at_def list_all_iff)
    have "\<forall>j<Suc i. agree_at words j"
      using True "1.prems" by (auto simp: less_Suc_eq)
    then have "\<forall>j<findPrefix_loop words (Suc i). agree_at words j"
      by (rule "1.IH"[OF c])
    with True show ?thesis by (subst findPrefix_loop_unfold) simp
  next
    case False
    with "1.prems" show ?thesis by (subst findPrefix_loop_unfold) auto
  qed
qed

lemma findPrefix_loop_stop:
  "\<not> (findPrefix_loop words i < length (hd words) \<and> agree_at words (findPrefix_loop words i))"
proof (induction words i rule: findPrefix_loop.induct)
  case (1 words i)
  show ?case
  proof (cases "i < length (hd words) \<and> agree_at words i")
    case True
    have c: "i < length (hd words) \<and> list_all (\<lambda>w. i < length w \<and> w ! i = hd words ! i) words"
      using True by (simp add: agree_at_def list_all_iff)
    have "\<not> (findPrefix_loop words (Suc i) < length (hd words)
        \<and> agree_at words (findPrefix_loop words (Suc i)))"
      by (rule "1.IH"[OF c])
    with True show ?thesis by (subst (1 2) findPrefix_loop_unfold) simp
  next
    case False
    then show ?thesis by (subst (1 2) findPrefix_loop_unfold) auto
  qed
qed

lemma agree_at_hd: "words \<noteq> [] \<Longrightarrow> agree_at words j \<Longrightarrow> j < length (hd words)"
  by (cases words) (auto simp: agree_at_def)

lemma findPrefix_scan:
  assumes "words \<noteq> []"
  shows "\<exists>k. scan_stop words k \<and> findPrefix words = take k (hd words)"
proof (cases "hd words = [] \<or> length words = 1")
  case True
  obtain w0 rest where w: "words = w0 # rest" using assms by (cases words) auto
  show ?thesis
  proof (cases "w0 = []")
    case True
    then have "scan_stop words 0" by (simp add: scan_stop_def agree_at_def w)
    moreover have "findPrefix words = take 0 (hd words)" using True by (simp add: findPrefix_def w)
    ultimately show ?thesis by blast
  next
    case False
    with True w have r: "rest = []" by simp
    have "scan_stop words (length w0)" by (simp add: scan_stop_def agree_at_def w r)
    moreover have "findPrefix words = take (length w0) (hd words)" by (simp add: findPrefix_def w r)
    ultimately show ?thesis by blast
  qed
next
  case False
  obtain w0 rest where w: "words = w0 # rest" using assms by (cases words) auto
  let ?k = "findPrefix_loop words 0"
  have a: "\<forall>j<?k. agree_at words j" using findPrefix_loop_agree[of 0 words] by simp
  have "\<not> (?k < length (hd words) \<and> agree_at words ?k)" by (rule findPrefix_loop_stop)
  with agree_at_hd[OF assms] have "\<not> agree_at words ?k" by blast
  with a have "scan_stop words ?k" by (simp add: scan_stop_def)
  moreover have "findPrefix words = take ?k (hd words)" using False by (simp add: findPrefix_def w)
  ultimately show ?thesis by blast
qed

lemma scan_stop_prefix:
  assumes "scan_stop words k" "w \<in> set words"
  shows "prefix (take k (hd words)) w"
proof -
  have k: "\<forall>j<k. j < length w \<and> w ! j = hd words ! j"
    using assms by (auto simp: scan_stop_def agree_at_def)
  have hdw: "hd words \<in> set words" using assms(2) by (cases words) auto
  have kh: "\<forall>j<k. j < length (hd words)"
    using assms(1) hdw by (auto simp: scan_stop_def agree_at_def)
  have kw: "k \<le> length w"
  proof (rule ccontr)
    assume "\<not> k \<le> length w"
    then have "length w < k" by simp
    with k have "length w < length w" by blast
    then show False by simp
  qed
  have khd: "k \<le> length (hd words)"
  proof (rule ccontr)
    assume "\<not> k \<le> length (hd words)"
    then have "length (hd words) < k" by simp
    with kh have "length (hd words) < length (hd words)" by blast
    then show False by simp
  qed
  have "take k (hd words) = take k w"
    using k kw khd by (intro nth_equalityI) auto
  then show ?thesis by (simp add: take_is_prefix)
qed

lemma scan_stop_longest:
  assumes "scan_stop words k" "words \<noteq> []" "\<forall>w\<in>set words. prefix q w"
  shows "prefix q (take k (hd words))"
proof -
  have hdw: "hd words \<in> set words" using assms(2) by (cases words) auto
  have qh: "prefix q (hd words)" using assms(3) hdw by blast
  have "length q \<le> k"
  proof (rule ccontr)
    assume "\<not> length q \<le> k"
    then have kq: "k < length q" by simp
    have "agree_at words k"
      unfolding agree_at_def
    proof
      fix w assume "w \<in> set words"
      then have pw: "prefix q w" using assms(3) by blast
      then have "k < length w" using kq by (meson less_le_trans prefix_length_le)
      moreover have "w ! k = q ! k" using pw kq by (auto simp: prefix_def nth_append)
      moreover have "hd words ! k = q ! k" using qh kq by (auto simp: prefix_def nth_append)
      ultimately show "k < length w \<and> w ! k = hd words ! k" by simp
    qed
    with assms(1) show False by (simp add: scan_stop_def)
  qed
  with qh show ?thesis by (auto simp: prefix_def)
qed

lemma samples_nonempty: "samples arr \<noteq> []"
  by (simp add: samples_def)

lemma samples_index: "arr \<noteq> [] \<Longrightarrow> i < 4 \<Longrightarrow> i * length arr div 4 < length arr"
  by (simp add: div_less_iff_less_mult)

text \<open>
  Claim C8. For a non-empty icon-class list \<open>arr\<close> of size \<open>n\<close>, the four samples are
  the entries at the positions \<open>i * n div 4\<close> for \<open>i = 0..3\<close>, all within the list, and
  the inferred prefix is their longest common prefix: it is a prefix of each sample, every
  common prefix of the samples is a prefix of it, and it is the first sample cut at the
  index \<open>k\<close> where the scan stops (all samples agree below \<open>k\<close>; at \<open>k\<close> some sample is
  exhausted or differs).
\<close>

theorem getPrefixFromIconClasses_longest_common_prefix:
  assumes "arr \<noteq> []"
  shows "samples arr = map (\<lambda>i. arr ! (i * length arr div 4)) [0, 1, 2, 3]
    \<and> (\<forall>i<4. i * length arr div 4 < length arr)
    \<and> (\<forall>s\<in>set (samples arr). prefix (getPrefixFromIconClasses arr) s)
    \<and> (\<forall>q. (\<forall>s\<in>set (samples arr). prefix q s) \<longrightarrow> prefix q (getPrefixFromIconClasses arr))
    \<and> (\<exists>k. getPrefixFromIconClasses arr = take k (hd (samples arr))
          \<and> (\<forall>j<k. \<forall>s\<in>set (samples arr). j < length s \<and> s ! j = hd (samples arr) ! j)
          \<and> \<not> (\<forall>s\<in>set (samples arr). k < length s \<and> s ! k = hd (samples arr) ! k))"
proof -
  obtain k where k: "scan_stop (samples arr) k" "findPrefix (samples arr) = take k (hd (samples arr))"
    using findPrefix_scan[OF samples_nonempty] by blast
  have g: "getPrefixFromIconClasses arr = take k (hd (samples arr))"
    using assms k(2) by (simp add: getPrefixFromIconClasses_def)
  have 1: "\<forall>s\<in>set (samples arr). prefix (getPrefixFromIconClasses arr) s"
    using scan_stop_prefix[OF k(1)] g by simp
  have 2: "\<forall>q. (\<forall>s\<in>set (samples arr). prefix q s) \<longrightarrow> prefix q (getPrefixFromIconClasses arr)"
    using scan_stop_longest[OF k(1) samples_nonempty] g by simp
  have 3: "\<forall>i<4. i * length arr div 4 < length arr"
    using samples_index[OF assms] by blast
  have 4: "(\<forall>j<k. \<forall>s\<in>set (samples arr). j < length s \<and> s ! j = hd (samples arr) ! j)
          \<and> \<not> (\<forall>s\<in>set (samples arr). k < length s \<and> s ! k = hd (samples arr) ! k)"
    using k(1) by (simp add: scan_stop_def agree_at_def)
  have 5: "samples arr = map (\<lambda>i. arr ! (i * length arr div 4)) [0, 1, 2, 3]"
    by (simp add: samples_def)
  have 6: "\<exists>k. getPrefixFromIconClasses arr = take k (hd (samples arr))
          \<and> (\<forall>j<k. \<forall>s\<in>set (samples arr). j < length s \<and> s ! j = hd (samples arr) ! j)
          \<and> \<not> (\<forall>s\<in>set (samples arr). k < length s \<and> s ! k = hd (samples arr) ! k)"
    using g 4 by blast
  show ?thesis using 5 3 1 2 6 by (intro conjI)
qed


theorem getPrefixFromIconClasses_longest_common_prefix_witness:
  "[''fa-home'', ''fa-user'', ''fa-star'', ''fa-x'', ''fa-yy''] \<noteq> []
   \<and> samples [''fa-home'', ''fa-user'', ''fa-star'', ''fa-x'', ''fa-yy'']
       = [''fa-home'', ''fa-user'', ''fa-star'', ''fa-x'']
   \<and> prefix (getPrefixFromIconClasses [''fa-home'', ''fa-user'', ''fa-star'', ''fa-x'', ''fa-yy'']) ''fa-home''
   \<and> prefix (getPrefixFromIconClasses [''fa-home'', ''fa-user'', ''fa-star'', ''fa-x'', ''fa-yy'']) ''fa-x''
   \<and> prefix ''fa-'' (getPrefixFromIconClasses [''fa-home'', ''fa-user'', ''fa-star'', ''fa-x'', ''fa-yy''])"
proof -
  have ne: "[''fa-home'', ''fa-user'', ''fa-star'', ''fa-x'', ''fa-yy''] \<noteq> []" by simp
  have sm: "samples [''fa-home'', ''fa-user'', ''fa-star'', ''fa-x'', ''fa-yy'']
       = [''fa-home'', ''fa-user'', ''fa-star'', ''fa-x'']"
    by (simp add: samples_def)
  note T = getPrefixFromIconClasses_longest_common_prefix[OF ne, unfolded sm]
  have 1: "\<forall>s\<in>set [''fa-home'', ''fa-user'', ''fa-star'', ''fa-x''].
         prefix (getPrefixFromIconClasses [''fa-home'', ''fa-user'', ''fa-star'', ''fa-x'', ''fa-yy'']) s"
    using T by blast
  have pa: "prefix (getPrefixFromIconClasses [''fa-home'', ''fa-user'', ''fa-star'', ''fa-x'', ''fa-yy'']) ''fa-home''"
    using 1 by simp
  have pb: "prefix (getPrefixFromIconClasses [''fa-home'', ''fa-user'', ''fa-star'', ''fa-x'', ''fa-yy'']) ''fa-x''"
    using 1 by simp
  have c: "\<forall>s\<in>set [''fa-home'', ''fa-user'', ''fa-star'', ''fa-x'']. prefix ''fa-'' s"
    by simp
  have 2: "prefix ''fa-'' (getPrefixFromIconClasses [''fa-home'', ''fa-user'', ''fa-star'', ''fa-x'', ''fa-yy''])"
    using T c by blast
  show ?thesis using ne sm pa pb 2 by (intro conjI)
qed

section \<open>Classification by the number of name candidates\<close>

lemma parseIcons_skip:
  assumes "Icon_parse u ic = Inr (None, out)"
  shows "icons_of (parseIcons (us @ u # vs) ic) = icons_of (parseIcons (us @ vs) ic)"
proof (induction us)
  case Nil
  show ?case using assms by (simp add: icons_of_def split: sum.splits prod.splits)
next
  case (Cons a us)
  show ?case
  proof (cases "Icon_parse a ic")
    case (Inl e)
    then show ?thesis by (simp add: icons_of_def)
  next
    case (Inr p)
    obtain r o' where p: "p = (r, o')" by (cases p)
    show ?thesis
    proof (cases "parseIcons (us @ u # vs) ic")
      case (Inl e)
      with Cons.IH have "parseIcons (us @ vs) ic = Inl e"
        by (auto simp: icons_of_def split: sum.splits prod.splits)
      with Inl Inr p show ?thesis by (simp add: icons_of_def)
    next
      case (Inr q)
      obtain icons outs where q: "q = (icons, outs)" by (cases q)
      with Inr Cons.IH obtain outs' where "parseIcons (us @ vs) ic = Inr (icons, outs')"
        by (auto simp: icons_of_def split: sum.splits prod.splits)
      with Inr q \<open>Icon_parse a ic = Inr p\<close> p show ?thesis by (simp add: icons_of_def)
    qed
  qed
qed

lemma filter_single_rest:
  assumes "filter P xs = [t]"
  shows "filter (\<lambda>c. c \<noteq> t) xs = filter (\<lambda>c. \<not> P c) xs"
proof -
  have "\<forall>x\<in>set xs. P x \<longrightarrow> x = t"
  proof (intro ballI impI)
    fix x assume "x \<in> set xs" "P x"
    then have "x \<in> set (filter P xs)" by simp
    with assms show "x = t" by simp
  qed
  moreover have "P t"
  proof -
    have "t \<in> set (filter P xs)" using assms by simp
    then show ?thesis by simp
  qed
  ultimately show ?thesis by (intro filter_cong) auto
qed

text \<open>
  Claim C4. \<open>Icon.parse\<close> is decided by the number of tokens that belong to the icon-class
  set. None: it returns \<open>null\<close> after one console line, and in step 5 the combination
  leaves the parsed icons as they are without it (same icons, or same error). Exactly one,
  \<open>t\<close>: it returns the icon named \<open>t\<close> whose modifiers are all the other tokens of the
  combination. More than one: it throws the more-than-one-icon-class error.
\<close>

theorem Icon_parse_by_candidate_count:
  fixes unparsed iconClasses :: "string list"
  shows
  "(length (filter (\<lambda>cls. cls \<in> set iconClasses) unparsed) = 0 \<longrightarrow>
      Icon_parse unparsed iconClasses =
        Inr (None, [''Detected icon with no name: '' @ join_str '' '' unparsed @ ''. (Skipping.)''])
      \<and> (\<forall>us vs. icons_of (parseIcons (us @ unparsed # vs) iconClasses)
                 = icons_of (parseIcons (us @ vs) iconClasses)))
   \<and> (length (filter (\<lambda>cls. cls \<in> set iconClasses) unparsed) = 1 \<longrightarrow>
      (\<exists>t. filter (\<lambda>cls. cls \<in> set iconClasses) unparsed = [t]
         \<and> Icon_parse unparsed iconClasses =
             Inr (Some \<lparr>name = t, modifiers = filter (\<lambda>cls. cls \<notin> set iconClasses) unparsed\<rparr>, [])
         \<and> mset unparsed = add_mset t (mset (filter (\<lambda>cls. cls \<notin> set iconClasses) unparsed))))
   \<and> (length (filter (\<lambda>cls. cls \<in> set iconClasses) unparsed) > 1 \<longrightarrow>
      Icon_parse unparsed iconClasses =
        Inl (MoreThanOneIconClass (filter (\<lambda>cls. cls \<in> set iconClasses) unparsed)))"
proof (intro conjI impI)
  assume z: "length (filter (\<lambda>cls. cls \<in> set iconClasses) unparsed) = 0"
  then show p: "Icon_parse unparsed iconClasses =
        Inr (None, [''Detected icon with no name: '' @ join_str '' '' unparsed @ ''. (Skipping.)''])"
    by (simp add: Icon_parse_def)
  show "\<forall>us vs. icons_of (parseIcons (us @ unparsed # vs) iconClasses)
                 = icons_of (parseIcons (us @ vs) iconClasses)"
    using parseIcons_skip[OF p] by blast
next
  assume o: "length (filter (\<lambda>cls. cls \<in> set iconClasses) unparsed) = 1"
  then obtain t where t: "filter (\<lambda>cls. cls \<in> set iconClasses) unparsed = [t]"
    by (cases "filter (\<lambda>cls. cls \<in> set iconClasses) unparsed") auto
  have r: "filter (\<lambda>c. c \<noteq> t) unparsed = filter (\<lambda>cls. cls \<notin> set iconClasses) unparsed"
    using filter_single_rest[OF t] by simp
  have 1: "Icon_parse unparsed iconClasses =
             Inr (Some \<lparr>name = t, modifiers = filter (\<lambda>cls. cls \<notin> set iconClasses) unparsed\<rparr>, [])"
    using t r by (simp add: Icon_parse_def)
  have "mset unparsed = mset (filter (\<lambda>cls. cls \<in> set iconClasses) unparsed)
          + mset (filter (\<lambda>cls. cls \<notin> set iconClasses) unparsed)"
    by (induction unparsed) auto
  then have 2: "mset unparsed = add_mset t (mset (filter (\<lambda>cls. cls \<notin> set iconClasses) unparsed))"
    using t by simp
  show "\<exists>t. filter (\<lambda>cls. cls \<in> set iconClasses) unparsed = [t]
         \<and> Icon_parse unparsed iconClasses =
             Inr (Some \<lparr>name = t, modifiers = filter (\<lambda>cls. cls \<notin> set iconClasses) unparsed\<rparr>, [])
         \<and> mset unparsed = add_mset t (mset (filter (\<lambda>cls. cls \<notin> set iconClasses) unparsed))"
    using t 1 2 by blast
next
  assume "length (filter (\<lambda>cls. cls \<in> set iconClasses) unparsed) > 1"
  then show "Icon_parse unparsed iconClasses =
        Inl (MoreThanOneIconClass (filter (\<lambda>cls. cls \<in> set iconClasses) unparsed))"
    by (simp add: Icon_parse_def)
qed

theorem Icon_parse_by_candidate_count_witness:
  "Icon_parse [''fa-spin'', ''fa-2x''] [''fa-home'', ''fa-user''] =
     Inr (None, [''Detected icon with no name: fa-spin fa-2x. (Skipping.)''])
   \<and> icons_of (parseIcons [[''fa'', ''fa-home''], [''fa-spin'', ''fa-2x''], [''fa'', ''fa-user'']] [''fa-home'', ''fa-user''])
       = icons_of (parseIcons [[''fa'', ''fa-home''], [''fa'', ''fa-user'']] [''fa-home'', ''fa-user''])
   \<and> Icon_parse [''fa'', ''fa-home'', ''fa-spin''] [''fa-home'', ''fa-user''] =
       Inr (Some \<lparr>name = ''fa-home'', modifiers = [''fa'', ''fa-spin'']\<rparr>, [])
   \<and> Icon_parse [''fa-home'', ''fa-user''] [''fa-home'', ''fa-user''] =
       Inl (MoreThanOneIconClass [''fa-home'', ''fa-user''])"
proof -
  have a: "length (filter (\<lambda>cls. cls \<in> set [''fa-home'', ''fa-user'']) [''fa-spin'', ''fa-2x'']) = 0"
    by simp
  have b: "length (filter (\<lambda>cls. cls \<in> set [''fa-home'', ''fa-user'']) [''fa'', ''fa-home'', ''fa-spin'']) = 1"
    by simp
  have c: "length (filter (\<lambda>cls. cls \<in> set [''fa-home'', ''fa-user'']) [''fa-home'', ''fa-user'']) > 1"
    by simp
  note A = Icon_parse_by_candidate_count[of "[''fa-home'', ''fa-user'']" "[''fa-spin'', ''fa-2x'']", THEN conjunct1, rule_format, OF a]
  note B = Icon_parse_by_candidate_count[of "[''fa-home'', ''fa-user'']" "[''fa'', ''fa-home'', ''fa-spin'']", THEN conjunct2, THEN conjunct1, rule_format, OF b]
  note C = Icon_parse_by_candidate_count[of "[''fa-home'', ''fa-user'']" "[''fa-home'', ''fa-user'']", THEN conjunct2, THEN conjunct2, rule_format, OF c]
  have 1: "Icon_parse [''fa-spin'', ''fa-2x''] [''fa-home'', ''fa-user''] =
     Inr (None, [''Detected icon with no name: fa-spin fa-2x. (Skipping.)''])"
    using A by simp
  have 2: "icons_of (parseIcons [[''fa'', ''fa-home''], [''fa-spin'', ''fa-2x''], [''fa'', ''fa-user'']] [''fa-home'', ''fa-user''])
       = icons_of (parseIcons [[''fa'', ''fa-home''], [''fa'', ''fa-user'']] [''fa-home'', ''fa-user''])"
    using A[THEN conjunct2, rule_format, of "[[''fa'', ''fa-home'']]" "[[''fa'', ''fa-user'']]"] by simp
  have 3: "Icon_parse [''fa'', ''fa-home'', ''fa-spin''] [''fa-home'', ''fa-user''] =
       Inr (Some \<lparr>name = ''fa-home'', modifiers = [''fa'', ''fa-spin'']\<rparr>, [])"
    using B by simp
  have 4: "Icon_parse [''fa-home'', ''fa-user''] [''fa-home'', ''fa-user''] =
       Inl (MoreThanOneIconClass [''fa-home'', ''fa-user''])"
    using C by simp
  show ?thesis using 1 2 3 4 by (intro conjI)
qed

section \<open>Normalisation of crawled combinations\<close>

lemma split_ws_from_nonempty: "split_ws_from cur s \<noteq> []"
  by (induction cur s rule: split_ws_from.induct) auto

lemma split_ws_nonempty: "split_ws s \<noteq> []"
  by (simp add: split_ws_def split_ws_from_nonempty)

lemma split_ws_from_no_space:
  "\<forall>c\<in>set cur. \<not> is_space c \<Longrightarrow> w \<in> set (split_ws_from cur s) \<Longrightarrow> \<forall>c\<in>set w. \<not> is_space c"
proof (induction cur s arbitrary: w rule: split_ws_from.induct)
  case (1 cur)
  then show ?case by simp
next
  case (2 cur d ds)
  show ?case
  proof (cases "is_space d")
    case True
    with "2.prems" have "w = cur \<or> w \<in> set (split_ws_from [] (dropWhile is_space ds))" by simp
    then show ?thesis
    proof
      assume "w = cur"
      with "2.prems"(1) show ?thesis by simp
    next
      assume a: "w \<in> set (split_ws_from [] (dropWhile is_space ds))"
      show ?thesis by (rule "2.IH"(1)[OF True _ a]) simp
    qed
  next
    case False
    with "2.prems" have w: "w \<in> set (split_ws_from (cur @ [d]) ds)" by simp
    have nd: "\<forall>c\<in>set (cur @ [d]). \<not> is_space c" using "2.prems"(1) False by simp
    show ?thesis by (rule "2.IH"(2)[OF False nd w])
  qed
qed

lemma split_ws_no_space: "w \<in> set (split_ws s) \<Longrightarrow> \<forall>c\<in>set w. \<not> is_space c"
  unfolding split_ws_def using split_ws_from_no_space[of "[]" w s] by simp

lemma split_sp_from_plain: "CHR '' '' \<notin> set w \<Longrightarrow> split_sp_from cur w = [cur @ w]"
  by (induction w arbitrary: cur) auto

lemma split_sp_from_append:
  "CHR '' '' \<notin> set w \<Longrightarrow> split_sp_from cur (w @ CHR '' '' # r) = (cur @ w) # split_sp_from [] r"
  by (induction w arbitrary: cur) auto

lemma split_sp_join:
  "ws \<noteq> [] \<Longrightarrow> \<forall>w\<in>set ws. CHR '' '' \<notin> set w \<Longrightarrow> split_sp (join_str '' '' ws) = ws"
proof (induction "'' ''" ws rule: join_str.induct)
  case 1
  then show ?case by simp
next
  case (2 x)
  then show ?case by (simp add: split_sp_def split_sp_from_plain)
next
  case (3 x y ys)
  have "split_sp (join_str '' '' (x # y # ys)) = split_sp_from [] (x @ CHR '' '' # join_str '' '' (y # ys))"
    by (simp add: split_sp_def)
  also have "\<dots> = x # split_sp (join_str '' '' (y # ys))"
    using "3.prems"(2) by (simp add: split_sp_from_append split_sp_def)
  also have "\<dots> = x # y # ys" using 3 by simp
  finally show ?case .
qed

lemma sort_mset_eq: "mset xs = mset ys \<Longrightarrow> sort xs = sort ys"
  by (metis mset_sort properties_for_sort sorted_sort)

lemma foldl_Set_add_same: "\<forall>x\<in>set xs. x = c \<Longrightarrow> foldl Set_add [c] xs = [c]"
  by (induction xs) (auto simp: Set_add_def)

lemma new_Set_same: "xs \<noteq> [] \<Longrightarrow> \<forall>x\<in>set xs. x = c \<Longrightarrow> new_Set xs = [c]"
  by (cases xs) (auto simp: new_Set_def Set_add_def foldl_Set_add_same)

lemma split_canonical: "split_sp (canonical s) = sort (split_ws s)"
proof -
  have "sort (split_ws s) \<noteq> []"
    using split_ws_nonempty[of s] by (metis length_0_conv length_sort)
  moreover have "\<forall>w\<in>set (sort (split_ws s)). CHR '' '' \<notin> set w"
    using split_ws_no_space[of _ s] by (auto simp: is_space_def)
  ultimately show ?thesis unfolding canonical_def by (rule split_sp_join)
qed

lemma foldl_Set_add_distinct_set:
  "distinct acc \<Longrightarrow> distinct (foldl Set_add acc xs) \<and> set (foldl Set_add acc xs) = set acc \<union> set xs"
proof (induction xs arbitrary: acc)
  case Nil
  then show ?case by simp
next
  case (Cons x xs)
  have d: "distinct (Set_add acc x)" using Cons.prems by (simp add: Set_add_def)
  have s: "set (Set_add acc x) = insert x (set acc)" by (auto simp: Set_add_def)
  from Cons.IH[OF d] s show ?case by auto
qed

lemma new_Set_distinct_set: "distinct (new_Set xs) \<and> set (new_Set xs) = set xs"
  using foldl_Set_add_distinct_set[of "[]" xs] by (simp add: new_Set_def)

lemma sort_eq_iff_mset: "sort xs = sort ys \<longleftrightarrow> mset xs = mset ys"
proof
  assume "sort xs = sort ys"
  then have "mset (sort xs) = mset (sort ys)" by simp
  then show "mset xs = mset ys" by simp
next
  assume "mset xs = mset ys"
  then show "sort xs = sort ys" by (rule sort_mset_eq)
qed

lemma findIcons_map: "set (findIcons matches) = (\<lambda>m. sort (split_ws m)) ` set matches"
proof -
  have "set (findIcons matches) = split_sp ` set (new_Set (map canonical matches))"
    by (simp add: findIcons_def)
  also have "\<dots> = split_sp ` canonical ` set matches"
    using new_Set_distinct_set[of "map canonical matches"] by simp
  also have "\<dots> = (\<lambda>m. sort (split_ws m)) ` set matches"
    by (simp add: image_image split_canonical)
  finally show ?thesis .
qed

lemma findIcons_distinct: "distinct (findIcons matches)"
proof -
  have d: "distinct (new_Set (map canonical matches))"
    using new_Set_distinct_set[of "map canonical matches"] by blast
  have "inj_on split_sp (set (new_Set (map canonical matches)))"
  proof (rule inj_onI)
    fix x y
    assume x: "x \<in> set (new_Set (map canonical matches))"
      and y: "y \<in> set (new_Set (map canonical matches))"
      and e: "split_sp x = split_sp y"
    from x obtain a where a: "x = canonical a"
      using new_Set_distinct_set[of "map canonical matches"] by auto
    from y obtain b where b: "y = canonical b"
      using new_Set_distinct_set[of "map canonical matches"] by auto
    from e a b have "sort (split_ws a) = sort (split_ws b)" by (simp add: split_canonical)
    then show "x = y" using a b by (simp add: canonical_def)
  qed
  with d show ?thesis unfolding findIcons_def by (simp add: distinct_map)
qed

text \<open>
  Claim C3. Two raw combinations with the same multiset of whitespace-separated tokens
  have the same canonical key (tokens sorted, joined by single spaces); when every match
  of a non-empty crawl has the token multiset of \<open>s\<close>, \<open>findIcons\<close> returns exactly one
  entry, the sorted token list of \<open>s\<close>; and for any crawl, \<open>findIcons\<close> returns without
  repetition exactly the sorted token lists of its matches, where two matches have the same
  sorted token list exactly when they have the same token multiset: all permutations of
  one multiset are one entry, also among matches of other multisets.
\<close>

theorem findIcons_order_independent:
  "(mset (split_ws s) = mset (split_ws t) \<longrightarrow> canonical s = canonical t)
   \<and> (matches \<noteq> [] \<and> (\<forall>m\<in>set matches. mset (split_ws m) = mset (split_ws s)) \<longrightarrow>
        findIcons matches = [sort (split_ws s)])
   \<and> distinct (findIcons matches)
   \<and> set (findIcons matches) = (\<lambda>m. sort (split_ws m)) ` set matches
   \<and> (sort (split_ws s) = sort (split_ws t) \<longleftrightarrow> mset (split_ws s) = mset (split_ws t))"
proof -
  have 1: "mset (split_ws s) = mset (split_ws t) \<longrightarrow> canonical s = canonical t"
  proof
    assume "mset (split_ws s) = mset (split_ws t)"
    then have "sort (split_ws s) = sort (split_ws t)" by (rule sort_mset_eq)
    then show "canonical s = canonical t" by (simp add: canonical_def)
  qed
  have 2: "matches \<noteq> [] \<and> (\<forall>m\<in>set matches. mset (split_ws m) = mset (split_ws s)) \<longrightarrow>
        findIcons matches = [sort (split_ws s)]"
  proof
    assume a: "matches \<noteq> [] \<and> (\<forall>m\<in>set matches. mset (split_ws m) = mset (split_ws s))"
    have "\<forall>x\<in>set (map canonical matches). x = canonical s"
    proof
      fix x assume "x \<in> set (map canonical matches)"
      then obtain m where m: "m \<in> set matches" "x = canonical m" by auto
      with a have "mset (split_ws m) = mset (split_ws s)" by blast
      then have "sort (split_ws m) = sort (split_ws s)" by (rule sort_mset_eq)
      then show "x = canonical s" using m(2) by (simp add: canonical_def)
    qed
    moreover have "map canonical matches \<noteq> []" using a by simp
    ultimately have "new_Set (map canonical matches) = [canonical s]"
      by (rule new_Set_same[rotated])
    then show "findIcons matches = [sort (split_ws s)]"
      by (simp add: findIcons_def split_canonical)
  qed
  have 3: "distinct (findIcons matches)" by (rule findIcons_distinct)
  have 4: "set (findIcons matches) = (\<lambda>m. sort (split_ws m)) ` set matches" by (rule findIcons_map)
  have 5: "sort (split_ws s) = sort (split_ws t) \<longleftrightarrow> mset (split_ws s) = mset (split_ws t)"
    by (rule sort_eq_iff_mset)
  show ?thesis using 1 2 3 4 5 by (intro conjI)
qed

theorem findIcons_order_independent_witness:
  "canonical ''fab fa-google'' = canonical ''fa-google   fab''
   \<and> findIcons [''fab fa-google'', ''fa-google   fab'', ''fa-google fab''] = [[''fa-google'', ''fab'']]
   \<and> distinct (findIcons [''fab fa-google'', ''fa fa-home'', ''fa-google fab''])
   \<and> set (findIcons [''fab fa-google'', ''fa fa-home'', ''fa-google fab''])
       = {[''fa-google'', ''fab''], [''fa'', ''fa-home'']}
   \<and> length (findIcons [''fab fa-google'', ''fa fa-home'', ''fa-google fab'']) = 2"
proof -
  have sp: "split_ws ''fab fa-google'' = [''fab'', ''fa-google'']"
     "split_ws ''fa-google   fab'' = [''fa-google'', ''fab'']"
     "split_ws ''fa-google fab'' = [''fa-google'', ''fab'']"
     "split_ws ''fa fa-home'' = [''fa'', ''fa-home'']"
    by code_simp+
  have so: "sort [''fab'', ''fa-google''] = [''fa-google'', ''fab'']"
     "sort [''fa-google'', ''fab''] = [''fa-google'', ''fab'']"
     "sort [''fa'', ''fa-home''] = [''fa'', ''fa-home'']"
    by code_simp+
  have 1: "mset (split_ws ''fab fa-google'') = mset (split_ws ''fa-google   fab'')"
    unfolding sp by simp
  have 2: "[''fab fa-google'', ''fa-google   fab'', ''fa-google fab''] \<noteq> []
    \<and> (\<forall>m\<in>set [''fab fa-google'', ''fa-google   fab'', ''fa-google fab''].
         mset (split_ws m) = mset (split_ws ''fab fa-google''))"
    using sp by simp
  have a: "canonical ''fab fa-google'' = canonical ''fa-google   fab''"
    using findIcons_order_independent[of "''fab fa-google''" "''fa-google   fab''", THEN conjunct1] 1 by blast
  note U = findIcons_order_independent[of "''fab fa-google''" "''fab fa-google''" "[''fab fa-google'', ''fa-google   fab'', ''fa-google fab'']"]
  have b: "findIcons [''fab fa-google'', ''fa-google   fab'', ''fa-google fab''] = [sort (split_ws ''fab fa-google'')]"
    using U 2 by blast
  note M = findIcons_order_independent[of "''fab fa-google''" "''fab fa-google''" "[''fab fa-google'', ''fa fa-home'', ''fa-google fab'']"]
  have c: "distinct (findIcons [''fab fa-google'', ''fa fa-home'', ''fa-google fab''])"
    using M by blast
  have "set (findIcons [''fab fa-google'', ''fa fa-home'', ''fa-google fab''])
       = (\<lambda>m. sort (split_ws m)) ` set [''fab fa-google'', ''fa fa-home'', ''fa-google fab'']"
    using M by blast
  also have "\<dots> = {[''fa-google'', ''fab''], [''fa'', ''fa-home'']}"
    by (simp only: list.set image_insert image_empty sp so) auto
  finally have d: "set (findIcons [''fab fa-google'', ''fa fa-home'', ''fa-google fab''])
       = {[''fa-google'', ''fab''], [''fa'', ''fa-home'']}" .
  have "length (findIcons [''fab fa-google'', ''fa fa-home'', ''fa-google fab''])
      = card (set (findIcons [''fab fa-google'', ''fa fa-home'', ''fa-google fab'']))"
    using c by (simp add: distinct_card)
  also have "\<dots> = 2" unfolding d by simp
  finally have e: "length (findIcons [''fab fa-google'', ''fa fa-home'', ''fa-google fab'']) = 2" .
  have b': "findIcons [''fab fa-google'', ''fa-google   fab'', ''fa-google fab''] = [[''fa-google'', ''fab'']]"
    using b unfolding sp so .
  show ?thesis using a b' c d e by (intro conjI)
qed

text \<open>
  Claim C10. The crawled combination \<open>fa-home fa-home\<close> repeats one known icon class.
  \<open>findIcons\<close> sorts its tokens and keeps both copies, \<open>Icon.parse\<close> counts two name
  candidates and throws the more-than-one-icon-class error, and so does step 5.
\<close>

theorem repeated_icon_class_is_fatal:
  "findIcons [''fa-home fa-home''] = [[''fa-home'', ''fa-home'']]
   \<and> Icon_parse [''fa-home'', ''fa-home''] [''fa-home'', ''fa-user'']
       = Inl (MoreThanOneIconClass [''fa-home'', ''fa-home''])
   \<and> parseIcons (findIcons [''fa-home fa-home'']) [''fa-home'', ''fa-user'']
       = Inl (MoreThanOneIconClass [''fa-home'', ''fa-home''])"
proof -
  have 1: "findIcons [''fa-home fa-home''] = [[''fa-home'', ''fa-home'']]"
    by code_simp
  have 2: "Icon_parse [''fa-home'', ''fa-home''] [''fa-home'', ''fa-user'']
       = Inl (MoreThanOneIconClass [''fa-home'', ''fa-home''])"
    by (simp add: Icon_parse_def)
  have 3: "parseIcons (findIcons [''fa-home fa-home'']) [''fa-home'', ''fa-user'']
       = Inl (MoreThanOneIconClass [''fa-home'', ''fa-home''])"
    by (simp add: 1 2)
  show ?thesis using 1 2 3 by (intro conjI)
qed

section \<open>Evaluation of the engine on the example passes\<close>

lemmas engine_defs = minify_def minify_run_def minifyIconMulti_def minifyIconSingle_def useFont_def
  expandInto_def addGlyph_def newCodepoint_def registerMapping_def matching_def hasIntersection_def
  intersection_def initState_def falsy_def toIconSelector_def Let_def

lemmas fixture_defs = brands_def solid_def fa_codepoints_def crawled_def fontawesome4_def

lemma minify_fixture:
  "minify [brands, solid] crawled fa_codepoints 0xE000 =
   Inr ([\<lparr>unicode = [0xE000], outline = ''google''\<rparr>,
         \<lparr>unicode = [0xE001], outline = ''star (brands)''\<rparr>,
         \<lparr>unicode = [0xE002], outline = ''star (solid)''\<rparr>,
         \<lparr>unicode = [0xE003], outline = ''house''\<rparr>,
         \<lparr>unicode = [0xE004], outline = ''user''\<rparr>],
        [(0xE000, [''.fa-google.fab'']),
         (0xE001, [''.fa-star.fab'', ''.fa-star.fa-brands'']),
         (0xE002, [''.fa-star.fas'', ''.fa-star.fa-solid'']),
         (0xE003, [''.fa-home.fas'', ''.fa-house.fa-solid.fa-2x'']),
         (0xE004, [''.fa-user.fas'', ''.fa-user.fa-solid''])])"
  by (simp add: engine_defs fixture_defs)

lemma minify_run_fixture:
  "\<exists>s. minify_run [brands, solid] crawled fa_codepoints 0xE000 = Inr s \<and> length (glyfs s) = 5"
  by (simp add: engine_defs fixture_defs)


section \<open>The engine: outcomes of its steps, and invariants of a pass\<close>

subsection \<open>The three outcomes of addGlyph\<close>

lemma addGlyph_cases:
  assumes "addGlyph ffs k cp s = (r, s')"
  obtains
    (missing) "font (ffs ! k) cp = []" "r = None" "s' = s"
  | (reuse) "font (ffs ! k) cp \<noteq> []" "\<not> falsy (oldCodepointsToNew s k cp)"
      "r = oldCodepointsToNew s k cp" "s' = s"
  | (fresh) "font (ffs ! k) cp \<noteq> []" "falsy (oldCodepointsToNew s k cp)"
      "r = Some (newCodepoint_value s)"
      "glyfs s' = glyfs s @ [(hd (font (ffs ! k) cp))\<lparr>unicode := [newCodepoint_value s]\<rparr>]"
      "oldCodepointsToNew s' = (oldCodepointsToNew s)(k := (oldCodepointsToNew s k)(cp \<mapsto> newCodepoint_value s))"
      "newCodepoint_value s' = newCodepoint_value s + 1"
      "newCodepointsToClasses s' = newCodepointsToClasses s"
proof (cases "font (ffs ! k) cp")
  case Nil
  with assms have "r = None" "s' = s" by (auto simp: addGlyph_def)
  with Nil show ?thesis by (rule missing)
next
  case (Cons g gs)
  show ?thesis
  proof (cases "falsy (oldCodepointsToNew s k cp)")
    case False
    with assms Cons have "r = oldCodepointsToNew s k cp" "s' = s" by (auto simp: addGlyph_def)
    with Cons False show ?thesis by (intro reuse) auto
  next
    case True
    with assms Cons have r: "r = Some (newCodepoint_value s)"
      and s': "s' = s\<lparr>newCodepoint_value := newCodepoint_value s + 1,
          oldCodepointsToNew := (oldCodepointsToNew s)(k := (oldCodepointsToNew s k)(cp \<mapsto> newCodepoint_value s)),
          glyfs := glyfs s @ [g\<lparr>unicode := [newCodepoint_value s]\<rparr>]\<rparr>"
      by (auto simp: addGlyph_def newCodepoint_def Let_def)
    show ?thesis
      by (rule fresh) (use Cons True r s' in auto)
  qed
qed

lemma falsy_Some: "falsy (Some n) = (n = 0)"
  by (simp add: falsy_def)

lemma falsy_None: "falsy None"
  by (simp add: falsy_def)

lemma not_falsy_iff: "\<not> falsy v \<longleftrightarrow> (\<exists>n. v = Some n \<and> n \<noteq> 0)"
  by (cases v) (auto simp: falsy_def)

subsection \<open>registerMapping\<close>

lemma registerMapping_fields:
  "glyfs (registerMapping n icon s) = glyfs s"
  "oldCodepointsToNew (registerMapping n icon s) = oldCodepointsToNew s"
  "newCodepoint_value (registerMapping n icon s) = newCodepoint_value s"
  by (simp_all add: registerMapping_def Let_def)

lemma registerMapping_map_of:
  "map_of (newCodepointsToClasses (registerMapping n icon s)) =
     (map_of (newCodepointsToClasses s))
       (n \<mapsto> (case map_of (newCodepointsToClasses s) n of None \<Rightarrow> [] | Some l \<Rightarrow> l) @ [toIconSelector icon])"
  by (auto simp: registerMapping_def Let_def update_conv' split: option.splits)

lemma registerMapping_keys:
  "fst ` set (newCodepointsToClasses (registerMapping n icon s)) =
     insert n (fst ` set (newCodepointsToClasses s))"
  by (auto simp: registerMapping_def Let_def dom_update)

lemma fold_registerMapping_fields:
  "glyfs (fold (\<lambda>c. registerMapping n (f c)) cs s) = glyfs s"
  "oldCodepointsToNew (fold (\<lambda>c. registerMapping n (f c)) cs s) = oldCodepointsToNew s"
  "newCodepoint_value (fold (\<lambda>c. registerMapping n (f c)) cs s) = newCodepoint_value s"
  by (induction cs arbitrary: s) (simp_all add: registerMapping_fields)

lemma fold_registerMapping_keys:
  "fst ` set (newCodepointsToClasses (fold (\<lambda>c. registerMapping n (f c)) cs s)) =
     (if cs = [] then fst ` set (newCodepointsToClasses s)
      else insert n (fst ` set (newCodepointsToClasses s)))"
  by (induction cs arbitrary: s) (auto simp: registerMapping_keys)

subsection \<open>Loops\<close>

lemma forIcons_preserves:
  assumes step: "\<And>icon s s'. P s \<Longrightarrow> body icon s = Inr s' \<Longrightarrow> P s'"
  shows "P s \<Longrightarrow> forIcons body icons s = Inr s' \<Longrightarrow> P s'"
proof (induction icons arbitrary: s)
  case Nil
  then show ?case by simp
next
  case (Cons icon icons)
  from Cons.prems(2) obtain s1 where s1: "body icon s = Inr s1" "forIcons body icons s1 = Inr s'"
    by (auto split: sum.splits)
  have "P s1" using step[OF Cons.prems(1) s1(1)] .
  then show ?case using Cons.IH s1(2) by blast
qed

lemma fold_preserves:
  assumes step: "\<And>x s. x \<in> set xs \<Longrightarrow> P s \<Longrightarrow> P (f x s)"
  shows "P s \<Longrightarrow> P (fold f xs s)"
  using step by (induction xs arbitrary: s) auto

lemma matching_hd:
  assumes "matching ffs icon = k # ks"
  shows "k < length ffs" "hasIntersection (ffs ! k) icon" "\<forall>j<k. \<not> hasIntersection (ffs ! j) icon"
proof -
  have "k \<in> set (matching ffs icon)" using assms by simp
  then show "k < length ffs" "hasIntersection (ffs ! k) icon" by (auto simp: matching_def)
  have srt: "sorted (matching ffs icon)" unfolding matching_def by (rule sorted_wrt_filter) simp
  show "\<forall>j<k. \<not> hasIntersection (ffs ! j) icon"
  proof (intro allI impI notI)
    fix j assume j: "j < k" "hasIntersection (ffs ! j) icon"
    with \<open>k < length ffs\<close> have "j \<in> set (matching ffs icon)" by (auto simp: matching_def)
    with assms j(1) have "j \<in> set ks" by auto
    with srt assms have "k \<le> j" by auto
    with j(1) show False by simp
  qed
qed

text \<open>An invariant of the engine's two resolution paths is an invariant of a whole run.\<close>

lemma minify_run_preserves:
  assumes direct: "\<And>k cp icon s s'. k < length ffs \<Longrightarrow> P s \<Longrightarrow> useFont ffs k cp icon s = Inr s' \<Longrightarrow> P s'"
    and expand: "\<And>k cp icon s. k < length ffs \<Longrightarrow> P s \<Longrightarrow> P (expandInto ffs cp icon k s)"
    and init: "P (initState base)"
    and run: "minify_run ffs icons iconToCodepoint base = Inr s"
  shows "P s"
proof -
  have ne: "ffs \<noteq> []" using run by (auto simp: minify_run_def split: if_splits)
  have multi: "\<And>icon s s'. P s \<Longrightarrow> minifyIconMulti ffs iconToCodepoint icon s = Inr s' \<Longrightarrow> P s'"
  proof -
    fix icon s s' assume P: "P s" and m: "minifyIconMulti ffs iconToCodepoint icon s = Inr s'"
    show "P s'"
    proof (cases "matching ffs icon")
      case Nil
      with m have "s' = fold (expandInto ffs (the (iconToCodepoint (name icon))) icon) [0..<length ffs] s"
        by (auto simp: minifyIconMulti_def Let_def split: if_splits)
      moreover have "P (fold (expandInto ffs (the (iconToCodepoint (name icon))) icon) [0..<length ffs] s)"
        by (rule fold_preserves[where P = P]) (use expand P in auto)
      ultimately show ?thesis by simp
    next
      case (Cons k ks)
      with m have "useFont ffs k (the (iconToCodepoint (name icon))) icon s = Inr s'"
        by (auto simp: minifyIconMulti_def Let_def split: if_splits)
      with direct[OF matching_hd(1)[OF Cons] P] show ?thesis by blast
    qed
  qed
  have single: "\<And>icon s s'. P s \<Longrightarrow> minifyIconSingle ffs iconToCodepoint icon s = Inr s' \<Longrightarrow> P s'"
  proof -
    fix icon s s' assume P: "P s" and m: "minifyIconSingle ffs iconToCodepoint icon s = Inr s'"
    then have "useFont ffs 0 (the (iconToCodepoint (name icon))) icon s = Inr s'"
      by (auto simp: minifyIconSingle_def split: if_splits)
    moreover have "0 < length ffs" using ne by simp
    ultimately show "P s'" using direct P by blast
  qed
  show ?thesis
  proof (cases "length ffs > 1")
    case True
    with run have "forIcons (minifyIconMulti ffs iconToCodepoint) icons (initState base) = Inr s"
      by (auto simp: minify_run_def split: if_splits)
    then have f: "forIcons (minifyIconMulti ffs iconToCodepoint) icons (initState base) = Inr s" .
    show ?thesis
    proof (rule forIcons_preserves[where P = P and body = "minifyIconMulti ffs iconToCodepoint"])
      show "P (initState base)" by (rule init)
      show "forIcons (minifyIconMulti ffs iconToCodepoint) icons (initState base) = Inr s" by (rule f)
    qed (rule multi)
  next
    case False
    with run ne have "forIcons (minifyIconSingle ffs iconToCodepoint) icons (initState base) = Inr s"
      by (auto simp: minify_run_def split: if_splits)
    then have f: "forIcons (minifyIconSingle ffs iconToCodepoint) icons (initState base) = Inr s" .
    show ?thesis
    proof (rule forIcons_preserves[where P = P and body = "minifyIconSingle ffs iconToCodepoint"])
      show "P (initState base)" by (rule init)
      show "forIcons (minifyIconSingle ffs iconToCodepoint) icons (initState base) = Inr s" by (rule f)
    qed (rule single)
  qed
qed


section \<open>The shared counter\<close>

lemma counter_inv_init: "counter_inv base (initState base)"
  by (simp add: counter_inv_def initState_def)

lemma counter_invD:
  assumes "counter_inv base s"
  shows "newCodepoint_value s = base + length (glyfs s)"
    and "map unicode (glyfs s) = map (\<lambda>n. [n]) [base..<newCodepoint_value s]"
    and "\<And>k cp n. oldCodepointsToNew s k cp = Some n \<Longrightarrow> base \<le> n \<and> n < newCodepoint_value s"
    and "\<And>k cp k' cp' n. oldCodepointsToNew s k cp = Some n \<Longrightarrow> oldCodepointsToNew s k' cp' = Some n
            \<Longrightarrow> k = k' \<and> cp = cp'"
    and "fst ` set (newCodepointsToClasses s) \<subseteq> {base..<newCodepoint_value s}"
  using assms unfolding counter_inv_def by blast+

lemma counter_inv_addGlyph:
  assumes inv: "counter_inv base s" and a: "addGlyph ffs k cp s = (r, s')"
  shows "counter_inv base s'" and "\<forall>n. r = Some n \<longrightarrow> base \<le> n \<and> n < newCodepoint_value s'"
proof -
  have both: "counter_inv base s' \<and> (\<forall>n. r = Some n \<longrightarrow> base \<le> n \<and> n < newCodepoint_value s')"
    using a
  proof (cases rule: addGlyph_cases)
    case missing
    with inv show ?thesis by simp
  next
    case reuse
    with inv counter_invD(3)[OF inv] show ?thesis by auto
  next
    case fresh
    let ?c = "newCodepoint_value s"
    note c = counter_invD(1)[OF inv]
    note u = counter_invD(2)[OF inv]
    note rng = counter_invD(3)[OF inv]
    note inj = counter_invD(4)[OF inv]
    note keys = counter_invD(5)[OF inv]
    have 1: "newCodepoint_value s' = base + length (glyfs s')" using fresh c by simp
    have 2: "map unicode (glyfs s') = map (\<lambda>n. [n]) [base..<newCodepoint_value s']"
      using fresh u c by simp
    have 3: "\<forall>k cp n. oldCodepointsToNew s' k cp = Some n \<longrightarrow> base \<le> n \<and> n < newCodepoint_value s'"
    proof (intro allI impI)
      fix k' cp' n assume h: "oldCodepointsToNew s' k' cp' = Some n"
      show "base \<le> n \<and> n < newCodepoint_value s'"
      proof (cases "k' = k \<and> cp' = cp")
        case True
        with h fresh have "n = ?c" by simp
        with c fresh show ?thesis by simp
      next
        case False
        with h fresh have "oldCodepointsToNew s k' cp' = Some n" by (auto split: if_splits)
        from rng[OF this] fresh show ?thesis by simp
      qed
    qed
    have old: "\<And>k' cp' n. \<not> (k' = k \<and> cp' = cp) \<Longrightarrow> oldCodepointsToNew s' k' cp' = Some n
        \<Longrightarrow> oldCodepointsToNew s k' cp' = Some n \<and> n < ?c"
    proof -
      fix k' cp' n assume f: "\<not> (k' = k \<and> cp' = cp)" and h: "oldCodepointsToNew s' k' cp' = Some n"
      with fresh have "oldCodepointsToNew s k' cp' = Some n" by (auto split: if_splits)
      with rng show "oldCodepointsToNew s k' cp' = Some n \<and> n < ?c" by blast
    qed
    have new: "oldCodepointsToNew s' k cp = Some ?c" using fresh by simp
    have 4: "\<forall>k1 cp1 k2 cp2 n. oldCodepointsToNew s' k1 cp1 = Some n \<and> oldCodepointsToNew s' k2 cp2 = Some n
            \<longrightarrow> k1 = k2 \<and> cp1 = cp2"
    proof (intro allI impI)
      fix k1 cp1 k2 cp2 n
      assume h: "oldCodepointsToNew s' k1 cp1 = Some n \<and> oldCodepointsToNew s' k2 cp2 = Some n"
      show "k1 = k2 \<and> cp1 = cp2"
      proof (cases "k1 = k \<and> cp1 = cp")
        case True
        with h new have n: "n = ?c" by simp
        show ?thesis
        proof (cases "k2 = k \<and> cp2 = cp")
          case True
          with \<open>k1 = k \<and> cp1 = cp\<close> show ?thesis by simp
        next
          case False
          from old[OF False] h n show ?thesis by auto
        qed
      next
        case False
        note F1 = this
        from old[OF False] h have o1: "oldCodepointsToNew s k1 cp1 = Some n" "n < ?c" by auto
        show ?thesis
        proof (cases "k2 = k \<and> cp2 = cp")
          case True
          with h new o1 show ?thesis by simp
        next
          case False
          from old[OF False] h have "oldCodepointsToNew s k2 cp2 = Some n" by auto
          with o1 inj show ?thesis by blast
        qed
      qed
    qed
    have 5: "fst ` set (newCodepointsToClasses s') \<subseteq> {base..<newCodepoint_value s'}"
      using keys fresh by auto
    have 6: "\<forall>n. r = Some n \<longrightarrow> base \<le> n \<and> n < newCodepoint_value s'"
      using fresh c by simp
    show ?thesis unfolding counter_inv_def using 1 2 3 4 5 6 by blast
  qed
  from both show "counter_inv base s'" by blast
  from both show "\<forall>n. r = Some n \<longrightarrow> base \<le> n \<and> n < newCodepoint_value s'" by blast
qed

lemma counter_inv_registerMapping:
  assumes "counter_inv base s" "base \<le> n" "n < newCodepoint_value s"
  shows "counter_inv base (registerMapping n icon s)"
  unfolding counter_inv_def registerMapping_fields registerMapping_keys
  using counter_invD[OF assms(1)] assms(2,3) by (intro conjI) auto

lemma counter_inv_fold_registerMapping:
  assumes "counter_inv base s" "base \<le> n" "n < newCodepoint_value s"
  shows "counter_inv base (fold (\<lambda>c. registerMapping n (f c)) cs s)"
  using assms
  by (induction cs arbitrary: s) (simp_all add: counter_inv_registerMapping registerMapping_fields)

lemma counter_inv_useFont:
  assumes "counter_inv base s" "useFont ffs k cp icon s = Inr s'"
  shows "counter_inv base s'"
proof -
  obtain r s1 where a: "addGlyph ffs k cp s = (r, s1)" by (cases "addGlyph ffs k cp s")
  with assms(2) have nf: "\<not> falsy r" and s': "s' = registerMapping (the r) icon s1"
    by (auto simp: useFont_def split: if_splits)
  from nf obtain n where n: "r = Some n" by (auto simp: not_falsy_iff)
  from counter_inv_addGlyph[OF assms(1) a] n
  have "counter_inv base s1" "base \<le> n" "n < newCodepoint_value s1" by auto
  then show ?thesis using s' n by (simp add: counter_inv_registerMapping)
qed

lemma counter_inv_expandInto:
  assumes "counter_inv base s"
  shows "counter_inv base (expandInto ffs cp icon k s)"
proof -
  obtain r s1 where a: "addGlyph ffs k cp s = (r, s1)" by (cases "addGlyph ffs k cp s")
  note A = counter_inv_addGlyph[OF assms a]
  show ?thesis
  proof (cases "falsy r")
    case True
    with a A(1) show ?thesis by (simp add: expandInto_def)
  next
    case False
    then obtain n where n: "r = Some n" by (auto simp: not_falsy_iff)
    with A have "counter_inv base s1" "base \<le> n" "n < newCodepoint_value s1" by auto
    then have "counter_inv base (fold (\<lambda>cls. registerMapping n (icon\<lparr>modifiers := modifiers icon @ [cls]\<rparr>))
                 (clss (ffs ! k)) s1)"
      by (rule counter_inv_fold_registerMapping)
    with a False n show ?thesis by (simp add: expandInto_def)
  qed
qed

text \<open>
  Claim C7. After every successful pass started at \<open>base\<close>, the counter stands at
  \<open>base\<close> plus the number of packed glyphs (one increment per glyph added); the packed
  glyphs carry, in the order they were added, exactly the unicode arrays \<open>[base]\<close>,
  \<open>[base + 1]\<close>, ... up to the counter (consecutive, no gap, no value twice); every new
  codepoint recorded for a (descriptor, legacy codepoint) pair lies in that range; two
  different pairs, of the same or of different descriptors, never hold the same new
  codepoint; and every key of the selector map lies in the range.
\<close>

theorem shared_counter_consecutive_codepoints:
  assumes "minify_run ffs icons iconToCodepoint base = Inr s"
  shows "newCodepoint_value s = base + length (glyfs s)
      \<and> map unicode (glyfs s) = map (\<lambda>n. [n]) [base..<newCodepoint_value s]
      \<and> (\<forall>k cp n. oldCodepointsToNew s k cp = Some n \<longrightarrow> base \<le> n \<and> n < newCodepoint_value s)
      \<and> (\<forall>k cp k' cp' n. oldCodepointsToNew s k cp = Some n \<and> oldCodepointsToNew s k' cp' = Some n
            \<longrightarrow> k = k' \<and> cp = cp')
      \<and> fst ` set (newCodepointsToClasses s) \<subseteq> {base..<newCodepoint_value s}"
proof -
  have "counter_inv base s"
  proof (rule minify_run_preserves[where P = "counter_inv base", OF _ _ counter_inv_init assms])
    show "\<And>k cp icon s s'. k < length ffs \<Longrightarrow> counter_inv base s \<Longrightarrow> useFont ffs k cp icon s = Inr s'
        \<Longrightarrow> counter_inv base s'"
      by (rule counter_inv_useFont)
    show "\<And>k cp icon s. k < length ffs \<Longrightarrow> counter_inv base s \<Longrightarrow> counter_inv base (expandInto ffs cp icon k s)"
      by (rule counter_inv_expandInto)
  qed
  then show ?thesis unfolding counter_inv_def .
qed

theorem shared_counter_consecutive_codepoints_witness:
  "\<exists>s. minify_run [brands, solid] crawled fa_codepoints 0xE000 = Inr s
      \<and> newCodepoint_value s = 0xE005
      \<and> map unicode (glyfs s) = [[0xE000], [0xE001], [0xE002], [0xE003], [0xE004]]"
proof -
  obtain s where s: "minify_run [brands, solid] crawled fa_codepoints 0xE000 = Inr s"
      "length (glyfs s) = 5"
    using minify_run_fixture by blast
  note T = shared_counter_consecutive_codepoints[OF s(1)]
  have c: "newCodepoint_value s = 0xE005" using T s(2) by simp
  have "map unicode (glyfs s) = map (\<lambda>n. [n]) [0xE000..<newCodepoint_value s]" using T by blast
  then have m: "map unicode (glyfs s) = [[0xE000], [0xE001], [0xE002], [0xE003], [0xE004]]"
    unfolding c by (simp add: upt_rec)
  show ?thesis using s(1) c m by (intro exI[of _ s] conjI)
qed


section \<open>Selectors and packed glyphs\<close>

lemma selector_invD:
  assumes "selector_inv base s"
  shows "counter_inv base s"
    and "fst ` set (newCodepointsToClasses s) = {base..<newCodepoint_value s}"
    and "distinct (map fst (newCodepointsToClasses s))"
    and "\<And>n l. (n, l) \<in> set (newCodepointsToClasses s) \<Longrightarrow> l \<noteq> []"
  using assms unfolding selector_inv_def by blast+

lemma selector_inv_init: "selector_inv base (initState base)"
  by (simp add: selector_inv_def counter_inv_init) (simp add: initState_def)

lemma registerMapping_distinct:
  "distinct (map fst (newCodepointsToClasses s))
    \<Longrightarrow> distinct (map fst (newCodepointsToClasses (registerMapping n icon s)))"
  by (simp add: registerMapping_def Let_def distinct_update)

lemma registerMapping_nonempty:
  assumes d: "distinct (map fst (newCodepointsToClasses s))"
    and ne: "\<forall>m l. (m, l) \<in> set (newCodepointsToClasses s) \<longrightarrow> l \<noteq> []"
    and mem: "(m, l) \<in> set (newCodepointsToClasses (registerMapping n icon s))"
  shows "l \<noteq> []"
proof -
  have d': "distinct (map fst (newCodepointsToClasses (registerMapping n icon s)))"
    using d by (rule registerMapping_distinct)
  from mem d' have "map_of (newCodepointsToClasses (registerMapping n icon s)) m = Some l"
    by simp
  then have c: "((map_of (newCodepointsToClasses s))
       (n \<mapsto> (case map_of (newCodepointsToClasses s) n of None \<Rightarrow> [] | Some l \<Rightarrow> l) @ [toIconSelector icon])) m = Some l"
    by (simp only: registerMapping_map_of)
  show ?thesis
  proof (cases "m = n")
    case True
    with c show ?thesis by auto
  next
    case False
    with c have "map_of (newCodepointsToClasses s) m = Some l" by simp
    then have "(m, l) \<in> set (newCodepointsToClasses s)" by (rule map_of_SomeD)
    then show ?thesis using ne by blast
  qed
qed

lemma selector_inv_registerMapping:
  assumes c: "counter_inv base s"
    and d: "distinct (map fst (newCodepointsToClasses s))"
    and ne: "\<forall>m l. (m, l) \<in> set (newCodepointsToClasses s) \<longrightarrow> l \<noteq> []"
    and k: "insert n (fst ` set (newCodepointsToClasses s)) = {base..<newCodepoint_value s}"
  shows "selector_inv base (registerMapping n icon s)"
proof -
  have n: "base \<le> n" "n < newCodepoint_value s" using k by auto
  have 1: "counter_inv base (registerMapping n icon s)"
    using c n by (rule counter_inv_registerMapping)
  have 2: "fst ` set (newCodepointsToClasses (registerMapping n icon s))
      = {base..<newCodepoint_value (registerMapping n icon s)}"
    using k by (simp add: registerMapping_keys registerMapping_fields)
  have 3: "distinct (map fst (newCodepointsToClasses (registerMapping n icon s)))"
    using d by (rule registerMapping_distinct)
  have 4: "\<forall>m l. (m, l) \<in> set (newCodepointsToClasses (registerMapping n icon s)) \<longrightarrow> l \<noteq> []"
    using registerMapping_nonempty[OF d ne] by blast
  show ?thesis unfolding selector_inv_def using 1 2 3 4 by blast
qed

lemma selector_inv_fold_registerMapping:
  assumes "selector_inv base s" "n \<in> fst ` set (newCodepointsToClasses s)"
  shows "selector_inv base (fold (\<lambda>c. registerMapping n (f c)) cs s)"
  using assms
proof (induction cs arbitrary: s)
  case Nil
  then show ?case by simp
next
  case (Cons c cs)
  have k: "insert n (fst ` set (newCodepointsToClasses s)) = {base..<newCodepoint_value s}"
    using selector_invD(2)[OF Cons.prems(1)] Cons.prems(2) by auto
  have "selector_inv base (registerMapping n (f c) s)"
    using selector_invD(1,3,4)[OF Cons.prems(1)] k by (intro selector_inv_registerMapping) blast+
  moreover have "n \<in> fst ` set (newCodepointsToClasses (registerMapping n (f c) s))"
    by (simp add: registerMapping_keys)
  ultimately show ?case using Cons.IH by simp
qed

text \<open>After addGlyph a non-falsy result needs only its registration to restore the invariant.\<close>

lemma selector_inv_addGlyph:
  assumes inv: "selector_inv base s" and a: "addGlyph ffs k cp s = (r, s1)" and b: "0 < base"
  shows "r = None \<and> s1 = s \<or>
         (\<exists>n. r = Some n \<and> n \<noteq> 0 \<and> counter_inv base s1
            \<and> distinct (map fst (newCodepointsToClasses s1))
            \<and> (\<forall>m l. (m, l) \<in> set (newCodepointsToClasses s1) \<longrightarrow> l \<noteq> [])
            \<and> insert n (fst ` set (newCodepointsToClasses s1)) = {base..<newCodepoint_value s1})"
proof -
  note c = selector_invD(1)[OF inv]
  note A = counter_inv_addGlyph[OF c a]
  from a show ?thesis
  proof (cases rule: addGlyph_cases)
    case missing
    then show ?thesis by simp
  next
    case reuse
    then obtain n where n: "oldCodepointsToNew s k cp = Some n" "n \<noteq> 0"
      by (auto simp: not_falsy_iff)
    with counter_invD(3)[OF c] have "base \<le> n \<and> n < newCodepoint_value s" by blast
    then have "insert n (fst ` set (newCodepointsToClasses s)) = {base..<newCodepoint_value s}"
      using selector_invD(2)[OF inv] by auto
    with reuse n c selector_invD(3,4)[OF inv] show ?thesis by auto
  next
    case fresh
    have cb: "base \<le> newCodepoint_value s" using counter_invD(1)[OF c] by simp
    have "insert (newCodepoint_value s) (fst ` set (newCodepointsToClasses s1))
        = {base..<newCodepoint_value s1}"
      using selector_invD(2)[OF inv] fresh cb by auto
    moreover have "newCodepoint_value s \<noteq> 0" using cb b by simp
    ultimately show ?thesis using fresh A(1) selector_invD(3,4)[OF inv] by auto
  qed
qed

lemma selector_inv_useFont:
  assumes inv: "selector_inv base s" and u: "useFont ffs k cp icon s = Inr s'" and b: "0 < base"
  shows "selector_inv base s'"
proof -
  obtain r s1 where a: "addGlyph ffs k cp s = (r, s1)" by (cases "addGlyph ffs k cp s")
  with u have nf: "\<not> falsy r" and s': "s' = registerMapping (the r) icon s1"
    by (auto simp: useFont_def split: if_splits)
  from nf have "r \<noteq> None" by (auto simp: not_falsy_iff)
  with selector_inv_addGlyph[OF inv a b] obtain n where n: "r = Some n" "counter_inv base s1"
      "distinct (map fst (newCodepointsToClasses s1))"
      "\<forall>m l. (m, l) \<in> set (newCodepointsToClasses s1) \<longrightarrow> l \<noteq> []"
      "insert n (fst ` set (newCodepointsToClasses s1)) = {base..<newCodepoint_value s1}"
    by blast
  have "selector_inv base (registerMapping n icon s1)"
    using n(2-5) by (rule selector_inv_registerMapping)
  with s' n(1) show ?thesis by simp
qed

lemma selector_inv_expandInto:
  assumes inv: "selector_inv base s" and b: "0 < base" and cl: "clss (ffs ! k) \<noteq> []"
  shows "selector_inv base (expandInto ffs cp icon k s)"
proof -
  obtain r s1 where a: "addGlyph ffs k cp s = (r, s1)" by (cases "addGlyph ffs k cp s")
  from selector_inv_addGlyph[OF inv a b] show ?thesis
  proof
    assume "r = None \<and> s1 = s"
    with a inv show ?thesis by (simp add: expandInto_def falsy_def)
  next
    assume "\<exists>n. r = Some n \<and> n \<noteq> 0 \<and> counter_inv base s1
            \<and> distinct (map fst (newCodepointsToClasses s1))
            \<and> (\<forall>m l. (m, l) \<in> set (newCodepointsToClasses s1) \<longrightarrow> l \<noteq> [])
            \<and> insert n (fst ` set (newCodepointsToClasses s1)) = {base..<newCodepoint_value s1}"
    then obtain n where n: "r = Some n" "n \<noteq> 0" "counter_inv base s1"
      "distinct (map fst (newCodepointsToClasses s1))"
      "\<forall>m l. (m, l) \<in> set (newCodepointsToClasses s1) \<longrightarrow> l \<noteq> []"
      "insert n (fst ` set (newCodepointsToClasses s1)) = {base..<newCodepoint_value s1}"
      by blast
    obtain c cs where ccs: "clss (ffs ! k) = c # cs" using cl by (cases "clss (ffs ! k)") auto
    let ?f = "\<lambda>cls. icon\<lparr>modifiers := modifiers icon @ [cls]\<rparr>"
    have 1: "selector_inv base (registerMapping n (?f c) s1)"
      using n(3-6) by (rule selector_inv_registerMapping)
    have 2: "n \<in> fst ` set (newCodepointsToClasses (registerMapping n (?f c) s1))"
      by (simp add: registerMapping_keys)
    have "selector_inv base (fold (\<lambda>cls. registerMapping n (?f cls)) cs (registerMapping n (?f c) s1))"
      using 1 2 by (rule selector_inv_fold_registerMapping)
    with a n(1,2) ccs show ?thesis by (simp add: expandInto_def falsy_def)
  qed
qed

text \<open>
  Claim C2. A pass is started at a private-use-area base (\<open>0 < base\<close>; the engine reads a
  zero codepoint as a missing one) over the active descriptors (in a multi-variant set every
  descriptor has at least one associated class: \<open>IconMinifier.minify\<close> adds no other). When it
  succeeds, every key of the returned selector map is the codepoint of a glyph of the packed
  list, every glyph of the packed list carries a single codepoint that is a key of the map
  with a non-empty selector list, and no key occurs twice.
\<close>

theorem selectors_and_glyphs_correspond:
  assumes b: "0 < base"
    and cl: "length ffs > 1 \<longrightarrow> (\<forall>ff\<in>set ffs. clss ff \<noteq> [])"
    and run: "minify ffs icons iconToCodepoint base = Inr (glyphs, selectors)"
  shows "(\<forall>n\<in>fst ` set selectors. \<exists>g\<in>set glyphs. unicode g = [n])
       \<and> (\<forall>g\<in>set glyphs. \<exists>n l. unicode g = [n] \<and> map_of selectors n = Some l \<and> l \<noteq> [])
       \<and> distinct (map fst selectors)"
proof -
  from run obtain s where s: "minify_run ffs icons iconToCodepoint base = Inr s"
      "glyphs = glyfs s" "selectors = newCodepointsToClasses s"
    by (auto simp: minify_def split: sum.splits)
  have inv: "selector_inv base s"
  proof (cases "length ffs > 1")
    case True
    show ?thesis
    proof (rule minify_run_preserves[where P = "selector_inv base", OF _ _ selector_inv_init s(1)])
      show "\<And>k cp icon s s'. k < length ffs \<Longrightarrow> selector_inv base s \<Longrightarrow> useFont ffs k cp icon s = Inr s'
          \<Longrightarrow> selector_inv base s'"
        using selector_inv_useFont b by blast
      show "\<And>k cp icon s. k < length ffs \<Longrightarrow> selector_inv base s \<Longrightarrow> selector_inv base (expandInto ffs cp icon k s)"
        using selector_inv_expandInto b cl True by simp
    qed
  next
    case False
    with s(1) have f: "forIcons (minifyIconSingle ffs iconToCodepoint) icons (initState base) = Inr s"
      by (auto simp: minify_run_def split: if_splits)
    show ?thesis
    proof (rule forIcons_preserves[where P = "selector_inv base" and body = "minifyIconSingle ffs iconToCodepoint"])
      show "selector_inv base (initState base)" by (rule selector_inv_init)
      show "forIcons (minifyIconSingle ffs iconToCodepoint) icons (initState base) = Inr s" by (rule f)
      show "\<And>icon s s'. selector_inv base s \<Longrightarrow> minifyIconSingle ffs iconToCodepoint icon s = Inr s'
          \<Longrightarrow> selector_inv base s'"
      proof -
        fix icon s s' assume i: "selector_inv base s" and m: "minifyIconSingle ffs iconToCodepoint icon s = Inr s'"
        then have uf: "useFont ffs 0 (the (iconToCodepoint (name icon))) icon s = Inr s'"
          by (auto simp: minifyIconSingle_def split: if_splits)
        show "selector_inv base s'" by (rule selector_inv_useFont[OF i uf b])
      qed
    qed
  qed
  note c = selector_invD(1)[OF inv]
  note u = counter_invD(2)[OF c]
  note keys = selector_invD(2)[OF inv]
  have 1: "\<forall>n\<in>fst ` set selectors. \<exists>g\<in>set glyphs. unicode g = [n]"
  proof
    fix n assume "n \<in> fst ` set selectors"
    with keys s(3) have "n \<in> set [base..<newCodepoint_value s]" by simp
    then have "[n] \<in> set (map (\<lambda>n. [n]) [base..<newCodepoint_value s])" by (simp only: set_map) (rule imageI)
    with u have "[n] \<in> set (map unicode (glyfs s))" by simp
    then show "\<exists>g\<in>set glyphs. unicode g = [n]" using s(2) by auto
  qed
  have 2: "\<forall>g\<in>set glyphs. \<exists>n l. unicode g = [n] \<and> map_of selectors n = Some l \<and> l \<noteq> []"
  proof
    fix g assume "g \<in> set glyphs"
    then have "unicode g \<in> set (map unicode (glyfs s))" using s(2) by simp
    with u have "unicode g \<in> set (map (\<lambda>n. [n]) [base..<newCodepoint_value s])" by simp
    then obtain n where n: "unicode g = [n]" "base \<le> n" "n < newCodepoint_value s" by auto
    with keys have "n \<in> fst ` set (newCodepointsToClasses s)" by simp
    then obtain l where l: "(n, l) \<in> set (newCodepointsToClasses s)" by auto
    with selector_invD(3)[OF inv] have "map_of (newCodepointsToClasses s) n = Some l" by simp
    moreover have "l \<noteq> []" using selector_invD(4)[OF inv l] .
    ultimately show "\<exists>n l. unicode g = [n] \<and> map_of selectors n = Some l \<and> l \<noteq> []"
      using n(1) s(3) by blast
  qed
  show ?thesis using 1 2 selector_invD(3)[OF inv] s(3) by blast
qed

theorem selectors_and_glyphs_correspond_witness:
  "(0::nat) < 0xE000
   \<and> fst (projr (minify [brands, solid] crawled fa_codepoints 0xE000))
       = [\<lparr>unicode = [0xE000], outline = ''google''\<rparr>,
          \<lparr>unicode = [0xE001], outline = ''star (brands)''\<rparr>,
          \<lparr>unicode = [0xE002], outline = ''star (solid)''\<rparr>,
          \<lparr>unicode = [0xE003], outline = ''house''\<rparr>,
          \<lparr>unicode = [0xE004], outline = ''user''\<rparr>]
   \<and> map fst (snd (projr (minify [brands, solid] crawled fa_codepoints 0xE000)))
       = [0xE000, 0xE001, 0xE002, 0xE003, 0xE004]
   \<and> (\<exists>g\<in>set (fst (projr (minify [brands, solid] crawled fa_codepoints 0xE000))). unicode g = [0xE003])
   \<and> (\<exists>l. map_of (snd (projr (minify [brands, solid] crawled fa_codepoints 0xE000))) 0xE004 = Some l \<and> l \<noteq> [])"
proof -
  have b: "(0::nat) < 0xE000" by simp
  have cl: "length [brands, solid] > 1 \<longrightarrow> (\<forall>ff\<in>set [brands, solid]. clss ff \<noteq> [])"
    by (simp add: brands_def solid_def)
  note T = selectors_and_glyphs_correspond[OF b cl minify_fixture]
  have 1: "\<exists>g\<in>set (fst (projr (minify [brands, solid] crawled fa_codepoints 0xE000))). unicode g = [0xE003]"
    unfolding minify_fixture using T by simp
  have 2: "\<exists>l. map_of (snd (projr (minify [brands, solid] crawled fa_codepoints 0xE000))) 0xE004 = Some l \<and> l \<noteq> []"
    unfolding minify_fixture using T by simp
  show ?thesis using b 1 2 unfolding minify_fixture by simp
qed


section \<open>The selector of an icon\<close>

lemma join_str_dots: "ms \<noteq> [] \<Longrightarrow> ''.'' @ join_str ''.'' ms = concat (map (\<lambda>c. ''.'' @ c) ms)"
  by (induction "''.''" ms rule: join_str.induct) auto

lemma toIconSelector_with_modifiers:
  "modifiers icon \<noteq> [] \<Longrightarrow>
     toIconSelector icon = concat (map (\<lambda>c. ''.'' @ c) (name icon # modifiers icon))"
  using join_str_dots[of "modifiers icon"] by (simp add: toIconSelector_def)

lemma toIconSelector_without_modifiers:
  "modifiers icon = [] \<Longrightarrow> toIconSelector icon = ''.'' @ name icon @ ''.''"
  by (simp add: toIconSelector_def)

text \<open>
  Claim C9, at an icon without modifiers. For the crawled combination \<open>fa-home\<close> alone,
  \<open>toIconSelector\<close> yields \<open>.fa-home.\<close>, with a dot after the name, not \<open>.fa-home\<close>; the
  single-variant pass registers that string for the new codepoint.
\<close>

theorem selector_of_icon_without_modifiers:
  "toIconSelector \<lparr>name = ''fa-home'', modifiers = []\<rparr> = ''.fa-home.''
   \<and> minify [fontawesome4] [\<lparr>name = ''fa-home'', modifiers = []\<rparr>] [''fa-home'' \<mapsto> 0xf015] 0xE000
       = Inr ([\<lparr>unicode = [0xE000], outline = ''home''\<rparr>], [(0xE000, [''.fa-home.''])])"
  by (simp add: engine_defs fixture_defs)


section \<open>Choice of the descriptor in a multi-variant set\<close>

lemma hasIntersection_iff:
  "hasIntersection ff icon \<longleftrightarrow> set (clss ff) \<inter> set (modifiers icon) \<noteq> {}"
proof -
  have "hasIntersection ff icon \<longleftrightarrow> filter (\<lambda>e. e \<in> set (modifiers icon)) (clss ff) \<noteq> []"
    by (simp add: hasIntersection_def intersection_def Suc_le_eq)
  also have "\<dots> \<longleftrightarrow> (\<exists>e\<in>set (clss ff). e \<in> set (modifiers icon))"
    by (simp add: filter_empty_conv)
  also have "\<dots> \<longleftrightarrow> set (clss ff) \<inter> set (modifiers icon) \<noteq> {}" by auto
  finally show ?thesis .
qed

lemma matching_Nil_iff:
  "matching ffs icon = [] \<longleftrightarrow> (\<forall>ff\<in>set ffs. set (clss ff) \<inter> set (modifiers icon) = {})"
proof -
  have "matching ffs icon = [] \<longleftrightarrow> (\<forall>k<length ffs. \<not> hasIntersection (ffs ! k) icon)"
    by (auto simp: matching_def filter_empty_conv)
  also have "\<dots> \<longleftrightarrow> (\<forall>ff\<in>set ffs. \<not> hasIntersection ff icon)"
    by (metis in_set_conv_nth)
  finally show ?thesis by (simp add: hasIntersection_iff)
qed

lemma addGlyph_fresh_state:
  assumes "font (ffs ! k) cp \<noteq> []" "falsy (oldCodepointsToNew s k cp)"
  shows "addGlyph ffs k cp s =
          (Some (newCodepoint_value s),
           s\<lparr>glyfs := glyfs s @ [(hd (font (ffs ! k) cp))\<lparr>unicode := [newCodepoint_value s]\<rparr>],
             oldCodepointsToNew :=
               (oldCodepointsToNew s)(k := (oldCodepointsToNew s k)(cp \<mapsto> newCodepoint_value s)),
             newCodepoint_value := newCodepoint_value s + 1\<rparr>)"
  using assms by (cases "font (ffs ! k) cp") (simp_all add: addGlyph_def newCodepoint_def Let_def)

lemma useFont_outcome:
  assumes u: "useFont ffs k cp icon s = Inr s'"
  shows "font (ffs ! k) cp \<noteq> []"
    and "\<forall>j. j \<noteq> k \<longrightarrow> oldCodepointsToNew s' j = oldCodepointsToNew s j"
    and "\<exists>n. n \<noteq> 0 \<and> oldCodepointsToNew s' k cp = Some n
           \<and> map_of (newCodepointsToClasses s') n
               = Some ((case map_of (newCodepointsToClasses s) n of None \<Rightarrow> [] | Some l \<Rightarrow> l)
                        @ [toIconSelector icon])
           \<and> (oldCodepointsToNew s k cp = Some n \<and> glyfs s' = glyfs s
                \<or> falsy (oldCodepointsToNew s k cp) \<and> n = newCodepoint_value s
                   \<and> glyfs s' = glyfs s @ [(hd (font (ffs ! k) cp))\<lparr>unicode := [n]\<rparr>])"
proof -
  obtain r s1 where a: "addGlyph ffs k cp s = (r, s1)" by (cases "addGlyph ffs k cp s")
  with u have nf: "\<not> falsy r" and s': "s' = registerMapping (the r) icon s1"
    by (auto simp: useFont_def split: if_splits)
  from nf obtain n where n: "r = Some n" "n \<noteq> 0" by (auto simp: not_falsy_iff)
  have all: "font (ffs ! k) cp \<noteq> []
    \<and> (\<forall>j. j \<noteq> k \<longrightarrow> oldCodepointsToNew s1 j = oldCodepointsToNew s j)
    \<and> oldCodepointsToNew s1 k cp = Some n
    \<and> newCodepointsToClasses s1 = newCodepointsToClasses s
    \<and> (oldCodepointsToNew s k cp = Some n \<and> glyfs s1 = glyfs s
                \<or> falsy (oldCodepointsToNew s k cp) \<and> n = newCodepoint_value s
                   \<and> glyfs s1 = glyfs s @ [(hd (font (ffs ! k) cp))\<lparr>unicode := [n]\<rparr>])"
    using a
  proof (cases rule: addGlyph_cases)
    case missing
    with n show ?thesis by simp
  next
    case reuse
    with n show ?thesis by simp
  next
    case fresh
    with n show ?thesis by simp
  qed
  from all show "font (ffs ! k) cp \<noteq> []" by blast
  from all s' show "\<forall>j. j \<noteq> k \<longrightarrow> oldCodepointsToNew s' j = oldCodepointsToNew s j"
    by (simp add: registerMapping_fields)
  have m: "map_of (newCodepointsToClasses s') n
               = Some ((case map_of (newCodepointsToClasses s) n of None \<Rightarrow> [] | Some l \<Rightarrow> l)
                        @ [toIconSelector icon])"
    using all s' n by (simp add: registerMapping_map_of)
  show "\<exists>n. n \<noteq> 0 \<and> oldCodepointsToNew s' k cp = Some n
           \<and> map_of (newCodepointsToClasses s') n
               = Some ((case map_of (newCodepointsToClasses s) n of None \<Rightarrow> [] | Some l \<Rightarrow> l)
                        @ [toIconSelector icon])
           \<and> (oldCodepointsToNew s k cp = Some n \<and> glyfs s' = glyfs s
                \<or> falsy (oldCodepointsToNew s k cp) \<and> n = newCodepoint_value s
                   \<and> glyfs s' = glyfs s @ [(hd (font (ffs ! k) cp))\<lparr>unicode := [n]\<rparr>])"
    using all s' n m by (intro exI[of _ n]) (simp add: registerMapping_fields)
qed

lemma useFont_missing:
  "font (ffs ! k) cp = [] \<Longrightarrow> useFont ffs k cp icon s = Inl (CouldNotFindGlyphs cp (name icon))"
  by (simp add: useFont_def addGlyph_def falsy_def)

lemma useFont_succeeds:
  assumes g: "font (ffs ! k) cp \<noteq> []" and c: "newCodepoint_value s \<noteq> 0"
  shows "\<exists>s'. useFont ffs k cp icon s = Inr s'"
proof -
  obtain r s1 where a: "addGlyph ffs k cp s = (r, s1)" by (cases "addGlyph ffs k cp s")
  have "\<not> falsy r"
    using a
  proof (cases rule: addGlyph_cases)
    case missing
    with g show ?thesis by simp
  next
    case reuse
    then show ?thesis by simp
  next
    case fresh
    with c show ?thesis by (simp add: falsy_def)
  qed
  with a show ?thesis by (simp add: useFont_def)
qed

lemma counter_nonzero:
  assumes "0 < base" "counter_inv base s"
  shows "newCodepoint_value s \<noteq> 0"
  using counter_invD(1)[OF assms(2)] assms(1) by simp

text \<open>
  Claim C5. In a multi-variant set, let the icon have a (non-zero) legacy codepoint \<open>cp\<close>
  and let its modifiers intersect the classes of at least one descriptor. Then there is a
  first such descriptor \<open>k\<close> in declaration order (it intersects, no earlier one does), and
  the step for the icon is the direct resolution from \<open>k\<close>, whether one or several
  descriptors intersect. The step succeeds whenever \<open>k\<close> holds a glyph at \<open>cp\<close> and the
  counter is not zero, as it is in every state of a pass started at a non-zero base: the
  ambiguity raises no error. It fails when \<open>k\<close> holds no glyph at \<open>cp\<close>. When it succeeds,
  no other descriptor's assignment changes, the icon's selector is appended to the list of
  the new codepoint recorded for \<open>(k, cp)\<close>, and the packed list is unchanged (codepoint
  reused) or extended by the clone of \<open>k\<close>'s first glyph for \<open>cp\<close> carrying that new
  codepoint.
\<close>

theorem first_intersecting_descriptor_is_used:
  assumes multi: "length ffs > 1"
    and cp: "iconToCodepoint (name icon) = Some cp" "cp \<noteq> 0"
    and some: "\<exists>ff\<in>set ffs. set (clss ff) \<inter> set (modifiers icon) \<noteq> {}"
  shows "\<exists>k. k < length ffs
      \<and> set (clss (ffs ! k)) \<inter> set (modifiers icon) \<noteq> {}
      \<and> (\<forall>j<k. set (clss (ffs ! j)) \<inter> set (modifiers icon) = {})
      \<and> minifyIconMulti ffs iconToCodepoint icon s = useFont ffs k cp icon s
      \<and> (font (ffs ! k) cp \<noteq> [] \<and> newCodepoint_value s \<noteq> 0 \<longrightarrow>
            (\<exists>s'. minifyIconMulti ffs iconToCodepoint icon s = Inr s'))
      \<and> (0 < base \<and> counter_inv base s \<longrightarrow> newCodepoint_value s \<noteq> 0)
      \<and> (font (ffs ! k) cp = [] \<longrightarrow>
            minifyIconMulti ffs iconToCodepoint icon s = Inl (CouldNotFindGlyphs cp (name icon)))
      \<and> (\<forall>s'. minifyIconMulti ffs iconToCodepoint icon s = Inr s' \<longrightarrow>
            font (ffs ! k) cp \<noteq> []
            \<and> (\<forall>j. j \<noteq> k \<longrightarrow> oldCodepointsToNew s' j = oldCodepointsToNew s j)
            \<and> (\<exists>n. n \<noteq> 0 \<and> oldCodepointsToNew s' k cp = Some n
                 \<and> map_of (newCodepointsToClasses s') n
                     = Some ((case map_of (newCodepointsToClasses s) n of None \<Rightarrow> [] | Some l \<Rightarrow> l)
                              @ [toIconSelector icon])
                 \<and> (oldCodepointsToNew s k cp = Some n \<and> glyfs s' = glyfs s
                      \<or> falsy (oldCodepointsToNew s k cp) \<and> n = newCodepoint_value s
                         \<and> glyfs s' = glyfs s @ [(hd (font (ffs ! k) cp))\<lparr>unicode := [n]\<rparr>])))"
proof -
  from some have "matching ffs icon \<noteq> []" by (simp add: matching_Nil_iff)
  then obtain k ks where m: "matching ffs icon = k # ks" by (cases "matching ffs icon") auto
  note H = matching_hd[OF m]
  have 1: "k < length ffs" by (rule H(1))
  have 2: "set (clss (ffs ! k)) \<inter> set (modifiers icon) \<noteq> {}"
    using H(2) by (simp add: hasIntersection_iff)
  have 3: "\<forall>j<k. set (clss (ffs ! j)) \<inter> set (modifiers icon) = {}"
    using H(3) by (simp add: hasIntersection_iff)
  have 4: "minifyIconMulti ffs iconToCodepoint icon s = useFont ffs k cp icon s"
    using m cp by (simp add: minifyIconMulti_def falsy_def)
  have 7: "font (ffs ! k) cp \<noteq> [] \<and> newCodepoint_value s \<noteq> 0 \<longrightarrow>
            (\<exists>s'. minifyIconMulti ffs iconToCodepoint icon s = Inr s')"
    unfolding 4 using useFont_succeeds by blast
  have 8: "0 < base \<and> counter_inv base s \<longrightarrow> newCodepoint_value s \<noteq> 0"
    using counter_nonzero by blast
  have 5: "font (ffs ! k) cp = [] \<longrightarrow>
            minifyIconMulti ffs iconToCodepoint icon s = Inl (CouldNotFindGlyphs cp (name icon))"
    using 4 useFont_missing by simp
  have 6: "\<forall>s'. minifyIconMulti ffs iconToCodepoint icon s = Inr s' \<longrightarrow>
            font (ffs ! k) cp \<noteq> []
            \<and> (\<forall>j. j \<noteq> k \<longrightarrow> oldCodepointsToNew s' j = oldCodepointsToNew s j)
            \<and> (\<exists>n. n \<noteq> 0 \<and> oldCodepointsToNew s' k cp = Some n
                 \<and> map_of (newCodepointsToClasses s') n
                     = Some ((case map_of (newCodepointsToClasses s) n of None \<Rightarrow> [] | Some l \<Rightarrow> l)
                              @ [toIconSelector icon])
                 \<and> (oldCodepointsToNew s k cp = Some n \<and> glyfs s' = glyfs s
                      \<or> falsy (oldCodepointsToNew s k cp) \<and> n = newCodepoint_value s
                         \<and> glyfs s' = glyfs s @ [(hd (font (ffs ! k) cp))\<lparr>unicode := [n]\<rparr>]))"
  proof (intro allI impI)
    fix s' assume "minifyIconMulti ffs iconToCodepoint icon s = Inr s'"
    with 4 have u: "useFont ffs k cp icon s = Inr s'" by simp
    show "font (ffs ! k) cp \<noteq> []
            \<and> (\<forall>j. j \<noteq> k \<longrightarrow> oldCodepointsToNew s' j = oldCodepointsToNew s j)
            \<and> (\<exists>n. n \<noteq> 0 \<and> oldCodepointsToNew s' k cp = Some n
                 \<and> map_of (newCodepointsToClasses s') n
                     = Some ((case map_of (newCodepointsToClasses s) n of None \<Rightarrow> [] | Some l \<Rightarrow> l)
                              @ [toIconSelector icon])
                 \<and> (oldCodepointsToNew s k cp = Some n \<and> glyfs s' = glyfs s
                      \<or> falsy (oldCodepointsToNew s k cp) \<and> n = newCodepoint_value s
                         \<and> glyfs s' = glyfs s @ [(hd (font (ffs ! k) cp))\<lparr>unicode := [n]\<rparr>]))"
      using useFont_outcome[OF u] by (intro conjI)
  qed
  show ?thesis using 1 2 3 4 7 8 5 6 by (intro exI[of _ k] conjI)
qed


theorem first_intersecting_descriptor_is_used_witness:
  "length [brands, solid] > 1
   \<and> fa_codepoints ''fa-star'' = Some 0xf005
   \<and> set (clss brands) \<inter> set [''fas'', ''fab''] \<noteq> {}
   \<and> set (clss solid) \<inter> set [''fas'', ''fab''] \<noteq> {}
   \<and> (0::nat) < 0xE000
   \<and> counter_inv 0xE000 (initState 0xE000)
   \<and> font brands 0xf005 \<noteq> []
   \<and> minifyIconMulti [brands, solid] fa_codepoints \<lparr>name = ''fa-star'', modifiers = [''fas'', ''fab'']\<rparr>
        (initState 0xE000)
       = useFont [brands, solid] 0 0xf005 \<lparr>name = ''fa-star'', modifiers = [''fas'', ''fab'']\<rparr>
        (initState 0xE000)
   \<and> (\<exists>s'. minifyIconMulti [brands, solid] fa_codepoints
          \<lparr>name = ''fa-star'', modifiers = [''fas'', ''fab'']\<rparr> (initState 0xE000) = Inr s'
          \<and> oldCodepointsToNew s' 1 = oldCodepointsToNew (initState 0xE000) 1
          \<and> font ([brands, solid] ! 0) 0xf005 \<noteq> [])"
proof -
  let ?icon = "\<lparr>name = ''fa-star'', modifiers = [''fas'', ''fab'']\<rparr>"
  let ?s = "initState 0xE000"
  have m: "length [brands, solid] > 1" by simp
  have c: "fa_codepoints (name ?icon) = Some 0xf005" "(0xf005::nat) \<noteq> 0"
    by (simp_all add: fa_codepoints_def)
  have b: "set (clss brands) \<inter> set [''fas'', ''fab''] \<noteq> {}" by (simp add: brands_def)
  have d: "set (clss solid) \<inter> set [''fas'', ''fab''] \<noteq> {}" by (simp add: solid_def)
  have e: "\<exists>ff\<in>set [brands, solid]. set (clss ff) \<inter> set (modifiers ?icon) \<noteq> {}"
    using b by simp
  have z: "(0::nat) < 0xE000" by simp
  have i: "counter_inv 0xE000 ?s" by (rule counter_inv_init)
  have g: "font brands 0xf005 \<noteq> []" by (simp add: brands_def)
  from first_intersecting_descriptor_is_used[where ffs = "[brands, solid]" and iconToCodepoint = fa_codepoints and icon = ?icon
      and cp = "0xf005" and s = ?s and base = "0xE000", OF m c e]
  obtain k where k: "\<forall>j<k. set (clss ([brands, solid] ! j)) \<inter> set (modifiers ?icon) = {}"
      "minifyIconMulti [brands, solid] fa_codepoints ?icon ?s
        = useFont [brands, solid] k 0xf005 ?icon ?s"
      "font ([brands, solid] ! k) 0xf005 \<noteq> [] \<and> newCodepoint_value ?s \<noteq> 0 \<longrightarrow>
            (\<exists>s'. minifyIconMulti [brands, solid] fa_codepoints ?icon ?s = Inr s')"
      "0 < (0xE000::nat) \<and> counter_inv 0xE000 ?s \<longrightarrow> newCodepoint_value ?s \<noteq> 0"
      "\<forall>s'. minifyIconMulti [brands, solid] fa_codepoints ?icon ?s = Inr s' \<longrightarrow>
            font ([brands, solid] ! k) 0xf005 \<noteq> []
            \<and> (\<forall>j. j \<noteq> k \<longrightarrow> oldCodepointsToNew s' j = oldCodepointsToNew ?s j)"
    by blast
  have k0: "k = 0"
  proof (rule ccontr)
    assume "k \<noteq> 0"
    then have "0 < k" by simp
    with k(1) have "set (clss ([brands, solid] ! 0)) \<inter> set (modifiers ?icon) = {}" by blast
    with b show False by simp
  qed
  have eq: "minifyIconMulti [brands, solid] fa_codepoints ?icon ?s
        = useFont [brands, solid] 0 0xf005 ?icon ?s"
    using k(2) k0 by simp
  have nz: "newCodepoint_value ?s \<noteq> 0" using k(4) z i by blast
  have "font ([brands, solid] ! k) 0xf005 \<noteq> []" using g k0 by simp
  with k(3) nz obtain s' where s': "minifyIconMulti [brands, solid] fa_codepoints ?icon ?s = Inr s'"
    by blast
  from k(5) s' k0 have f: "oldCodepointsToNew s' 1 = oldCodepointsToNew ?s 1"
      "font ([brands, solid] ! 0) 0xf005 \<noteq> []"
    by auto
  have ex: "\<exists>s'. minifyIconMulti [brands, solid] fa_codepoints ?icon ?s = Inr s'
          \<and> oldCodepointsToNew s' 1 = oldCodepointsToNew ?s 1
          \<and> font ([brands, solid] ! 0) 0xf005 \<noteq> []"
    using s' f by blast
  have c1: "fa_codepoints ''fa-star'' = Some 0xf005" using c(1) by simp
  show ?thesis using m c1 b d z i g eq ex by (intro conjI)
qed

section \<open>The fallback expansion\<close>

lemma fold_cong_inv:
  assumes "P s"
    and "\<And>x s. x \<in> set xs \<Longrightarrow> P s \<Longrightarrow> f x s = g x s \<and> P (f x s)"
  shows "fold f xs s = fold g xs s \<and> P (fold f xs s)"
  using assms
proof (induction xs arbitrary: s)
  case Nil
  then show ?case by simp
next
  case (Cons x xs)
  have "x \<in> set (x # xs)" by simp
  from Cons.prems(2)[OF this Cons.prems(1)] have 1: "f x s = g x s" "P (f x s)" by blast+
  have "\<And>y s. y \<in> set xs \<Longrightarrow> P s \<Longrightarrow> f y s = g y s \<and> P (f y s)"
  proof -
    fix y s assume y: "y \<in> set xs" and Ps: "P s"
    from y have "y \<in> set (x # xs)" by simp
    from Cons.prems(2)[OF this Ps] show "f y s = g y s \<and> P (f y s)" .
  qed
  with Cons.IH[OF 1(2)] have r: "fold f xs (f x s) = fold g xs (f x s)" "P (fold f xs (f x s))"
    by blast+
  have a: "fold f (x # xs) s = fold f xs (f x s)" by simp
  have b: "fold g (x # xs) s = fold g xs (f x s)" using 1(1) by simp
  show ?case unfolding a b using r by (intro conjI)
qed

lemma falsy_recorded:
  assumes "counter_inv base s" "0 < base"
  shows "falsy (oldCodepointsToNew s k cp) \<longleftrightarrow> oldCodepointsToNew s k cp = None"
proof (cases "oldCodepointsToNew s k cp")
  case None
  then show ?thesis by (simp add: falsy_def)
next
  case (Some n)
  with counter_invD(3)[OF assms(1)] have "base \<le> n" by blast
  with assms(2) Some show ?thesis by (simp add: falsy_def)
qed

lemma expandInto_spec:
  assumes inv: "counter_inv base s" and b: "0 < base"
  shows "expandInto ffs cp icon k s =
     (if font (ffs ! k) cp = [] then s
      else (case allocateOrReuse ffs k cp s of
              (n, s1) \<Rightarrow> fold (\<lambda>cls. registerMapping n (derivedIcon icon cls)) (clss (ffs ! k)) s1))"
proof (cases "font (ffs ! k) cp = []")
  case True
  then show ?thesis by (simp add: expandInto_def addGlyph_def falsy_def)
next
  case False
  note F = falsy_recorded[OF inv b, of k cp]
  show ?thesis
  proof (cases "oldCodepointsToNew s k cp")
    case None
    then have f: "falsy (oldCodepointsToNew s k cp)" using F by simp
    have c: "newCodepoint_value s \<noteq> 0" using counter_invD(1)[OF inv] b by simp
    show ?thesis
      using False None c
      by (simp add: expandInto_def addGlyph_fresh_state[OF False f] allocateOrReuse_def falsy_def
          derivedIcon_def)
  next
    case (Some n)
    then have nf: "\<not> falsy (oldCodepointsToNew s k cp)" using F by simp
    obtain g gs where g: "font (ffs ! k) cp = g # gs" using False by (cases "font (ffs ! k) cp") auto
    have a: "addGlyph ffs k cp s = (Some n, s)" using g nf Some by (simp add: addGlyph_def)
    have "\<not> falsy (Some n)" using nf Some by simp
    then show ?thesis
      using False Some a by (simp add: expandInto_def allocateOrReuse_def derivedIcon_def)
  qed
qed

text \<open>
  Claim C6. In a multi-variant set, let the icon have a (non-zero) legacy codepoint \<open>cp\<close>
  and let its modifiers intersect no descriptor's classes. In every state of a pass started
  at a non-zero base, the step for the icon does not fail and yields exactly the expansion:
  every descriptor holding a glyph at \<open>cp\<close> gets its new codepoint allocated or reused and
  one derived icon registered per associated class; a descriptor without the glyph is
  passed over. The state reached is again a state of such a pass.
\<close>

theorem fallback_expands_over_descriptors:
  assumes multi: "length ffs > 1"
    and cp: "iconToCodepoint (name icon) = Some cp" "cp \<noteq> 0"
    and none: "\<forall>ff\<in>set ffs. set (clss ff) \<inter> set (modifiers icon) = {}"
    and b: "0 < base" and inv: "counter_inv base s"
  shows "minifyIconMulti ffs iconToCodepoint icon s = Inr (expansion ffs cp icon s)
       \<and> counter_inv base (expansion ffs cp icon s)"
proof -
  have m: "matching ffs icon = []" using none by (simp add: matching_Nil_iff)
  have 1: "minifyIconMulti ffs iconToCodepoint icon s
      = Inr (fold (expandInto ffs cp icon) [0..<length ffs] s)"
    using m cp by (simp add: minifyIconMulti_def falsy_def)
  let ?g = "\<lambda>k s. if font (ffs ! k) cp = [] then s
                  else (case allocateOrReuse ffs k cp s of
                          (n, s1) \<Rightarrow> fold (\<lambda>cls. registerMapping n (derivedIcon icon cls)) (clss (ffs ! k)) s1)"
  have "fold (expandInto ffs cp icon) [0..<length ffs] s = fold ?g [0..<length ffs] s
      \<and> counter_inv base (fold (expandInto ffs cp icon) [0..<length ffs] s)"
  proof (rule fold_cong_inv[where P = "counter_inv base"])
    show "counter_inv base s" by (rule inv)
    show "\<And>x s. x \<in> set [0..<length ffs] \<Longrightarrow> counter_inv base s \<Longrightarrow>
        expandInto ffs cp icon x s = ?g x s \<and> counter_inv base (expandInto ffs cp icon x s)"
      using expandInto_spec[OF _ b] counter_inv_expandInto by blast
  qed
  then have eq: "fold (expandInto ffs cp icon) [0..<length ffs] s = fold ?g [0..<length ffs] s"
    and fc: "counter_inv base (fold (expandInto ffs cp icon) [0..<length ffs] s)"
    by blast+
  have 2: "fold (expandInto ffs cp icon) [0..<length ffs] s = expansion ffs cp icon s"
    unfolding expansion_def by (rule eq)
  have 3: "counter_inv base (expansion ffs cp icon s)" using fc unfolding 2 .
  show ?thesis using 1 2 3 by simp
qed

lemma expansion_fixture:
  "map_of (newCodepointsToClasses (expansion [brands, solid] 0xf005 \<lparr>name = ''fa-star'', modifiers = []\<rparr>
      (initState 0xE000))) = [0xE000 \<mapsto> [''.fa-star.fab'', ''.fa-star.fa-brands''],
                              0xE001 \<mapsto> [''.fa-star.fas'', ''.fa-star.fa-solid'']]"
  by (simp add: expansion_def allocateOrReuse_def derivedIcon_def engine_defs fixture_defs fun_eq_iff)

theorem fallback_expands_over_descriptors_witness:
  "length [brands, solid] > 1
   \<and> fa_codepoints ''fa-star'' = Some 0xf005
   \<and> (0::nat) < 0xE000
   \<and> counter_inv 0xE000 (initState 0xE000)
   \<and> minifyIconMulti [brands, solid] fa_codepoints \<lparr>name = ''fa-star'', modifiers = []\<rparr> (initState 0xE000)
       = Inr (expansion [brands, solid] 0xf005 \<lparr>name = ''fa-star'', modifiers = []\<rparr> (initState 0xE000))
   \<and> map_of (newCodepointsToClasses (expansion [brands, solid] 0xf005 \<lparr>name = ''fa-star'', modifiers = []\<rparr>
        (initState 0xE000))) 0xE001 = Some [''.fa-star.fas'', ''.fa-star.fa-solid'']"
proof -
  let ?icon = "\<lparr>name = ''fa-star'', modifiers = []\<rparr>"
  have m: "length [brands, solid] > 1" by simp
  have c: "fa_codepoints (name ?icon) = Some 0xf005" "(0xf005::nat) \<noteq> 0"
    by (simp_all add: fa_codepoints_def)
  have n: "\<forall>ff\<in>set [brands, solid]. set (clss ff) \<inter> set (modifiers ?icon) = {}" by simp
  have b: "(0::nat) < 0xE000" by simp
  have i: "counter_inv 0xE000 (initState 0xE000)" by (rule counter_inv_init)
  note T = fallback_expands_over_descriptors[where ffs = "[brands, solid]" and iconToCodepoint = fa_codepoints and icon = ?icon
      and cp = "0xf005" and base = "0xE000" and s = "initState 0xE000", OF m c n b i]
  have e: "map_of (newCodepointsToClasses (expansion [brands, solid] 0xf005 ?icon (initState 0xE000))) 0xE001
      = Some [''.fa-star.fas'', ''.fa-star.fa-solid'']"
    by (simp add: expansion_fixture)
  show ?thesis using m c(1) b i T e by simp
qed


section \<open>Requests and packed glyphs of a descriptor\<close>

lemma minify_run_iconStep:
  "minify_run ffs icons iconToCodepoint base =
     (if ffs = [] then Inl NoFontsAdded
      else forIcons (iconStep ffs iconToCodepoint) icons (initState base))"
proof -
  have "iconStep ffs iconToCodepoint =
      (if length ffs > 1 then minifyIconMulti ffs iconToCodepoint else minifyIconSingle ffs iconToCodepoint)"
    by (auto simp: iconStep_def fun_eq_iff)
  then show ?thesis by (simp add: minify_run_def)
qed

subsection \<open>Which assignments a step adds\<close>

lemma addGlyph_dom:
  assumes "addGlyph ffs k cp s = (r, s')"
  shows "dom (oldCodepointsToNew s' j) =
     (if j = k \<and> font (ffs ! k) cp \<noteq> [] then insert cp (dom (oldCodepointsToNew s j))
      else dom (oldCodepointsToNew s j))"
  using assms
proof (cases rule: addGlyph_cases)
  case missing
  then show ?thesis by simp
next
  case reuse
  then have "cp \<in> dom (oldCodepointsToNew s k)" by (auto simp: not_falsy_iff)
  with reuse show ?thesis by auto
next
  case fresh
  then show ?thesis by auto
qed

lemma useFont_dom:
  assumes "useFont ffs k cp icon s = Inr s'"
  shows "dom (oldCodepointsToNew s' j) =
     (if j = k then insert cp (dom (oldCodepointsToNew s j)) else dom (oldCodepointsToNew s j))"
proof -
  obtain r s1 where a: "addGlyph ffs k cp s = (r, s1)" by (cases "addGlyph ffs k cp s")
  with assms have s': "s' = registerMapping (the r) icon s1"
    by (auto simp: useFont_def split: if_splits)
  have "font (ffs ! k) cp \<noteq> []" using useFont_outcome(1)[OF assms] .
  with addGlyph_dom[OF a, of j] s' show ?thesis by (simp add: registerMapping_fields)
qed

lemma expandInto_dom:
  "dom (oldCodepointsToNew (expandInto ffs cp icon k s) j) =
     (if j = k \<and> font (ffs ! k) cp \<noteq> [] then insert cp (dom (oldCodepointsToNew s j))
      else dom (oldCodepointsToNew s j))"
proof -
  obtain r s1 where a: "addGlyph ffs k cp s = (r, s1)" by (cases "addGlyph ffs k cp s")
  have "oldCodepointsToNew (expandInto ffs cp icon k s) = oldCodepointsToNew s1"
    using a by (simp add: expandInto_def fold_registerMapping_fields)
  with addGlyph_dom[OF a, of j] show ?thesis by simp
qed

lemma fold_expandInto_dom:
  "distinct ks \<Longrightarrow> dom (oldCodepointsToNew (fold (expandInto ffs cp icon) ks s) j) =
     (if j \<in> set ks \<and> font (ffs ! j) cp \<noteq> [] then insert cp (dom (oldCodepointsToNew s j))
      else dom (oldCodepointsToNew s j))"
proof (induction ks arbitrary: s)
  case Nil
  then show ?case by simp
next
  case (Cons k ks)
  have "dom (oldCodepointsToNew (fold (expandInto ffs cp icon) (k # ks) s) j) =
     (if j \<in> set ks \<and> font (ffs ! j) cp \<noteq> [] then insert cp (dom (oldCodepointsToNew (expandInto ffs cp icon k s) j))
      else dom (oldCodepointsToNew (expandInto ffs cp icon k s) j))"
    using Cons.IH[of "expandInto ffs cp icon k s"] Cons.prems by simp
  then show ?case unfolding expandInto_dom using Cons.prems by auto
qed

lemma iconStep_dom:
  assumes ne: "ffs \<noteq> []" and st: "iconStep ffs iconToCodepoint icon s = Inr s'"
  shows "dom (oldCodepointsToNew s' j) =
           dom (oldCodepointsToNew s j) \<union> {cp. (j, cp) \<in> set (requests ffs iconToCodepoint icon)}"
proof (cases "length ffs > 1")
  case True
  with st have m: "minifyIconMulti ffs iconToCodepoint icon s = Inr s'" by (simp add: iconStep_def)
  then obtain cp where cp: "iconToCodepoint (name icon) = Some cp"
    by (auto simp: minifyIconMulti_def falsy_def split: if_splits option.splits)
  show ?thesis
  proof (cases "matching ffs icon")
    case Nil
    with m cp have s': "s' = fold (expandInto ffs cp icon) [0..<length ffs] s"
      by (auto simp: minifyIconMulti_def Let_def split: if_splits)
    have "dom (oldCodepointsToNew s' j) =
       (if j \<in> set [0..<length ffs] \<and> font (ffs ! j) cp \<noteq> [] then insert cp (dom (oldCodepointsToNew s j))
        else dom (oldCodepointsToNew s j))"
      unfolding s' by (rule fold_expandInto_dom) simp
    moreover have "{c. (j, c) \<in> set (requests ffs iconToCodepoint icon)}
        = (if j \<in> set [0..<length ffs] \<and> font (ffs ! j) cp \<noteq> [] then {cp} else {})"
      using True Nil cp by (auto simp: requests_def)
    ultimately show ?thesis by auto
  next
    case (Cons k ks)
    with m cp have "useFont ffs k cp icon s = Inr s'"
      by (auto simp: minifyIconMulti_def Let_def split: if_splits)
    from useFont_dom[OF this, of j] have "dom (oldCodepointsToNew s' j) =
       (if j = k then insert cp (dom (oldCodepointsToNew s j)) else dom (oldCodepointsToNew s j))" .
    moreover have "{c. (j, c) \<in> set (requests ffs iconToCodepoint icon)} = (if j = k then {cp} else {})"
      using True Cons cp by (auto simp: requests_def)
    ultimately show ?thesis by auto
  qed
next
  case False
  with st have m: "minifyIconSingle ffs iconToCodepoint icon s = Inr s'" by (simp add: iconStep_def)
  then obtain cp where cp: "iconToCodepoint (name icon) = Some cp"
    by (auto simp: minifyIconSingle_def falsy_def split: if_splits option.splits)
  with m have "useFont ffs 0 cp icon s = Inr s'"
    by (auto simp: minifyIconSingle_def split: if_splits)
  from useFont_dom[OF this, of j] have "dom (oldCodepointsToNew s' j) =
       (if j = 0 then insert cp (dom (oldCodepointsToNew s j)) else dom (oldCodepointsToNew s j))" .
  moreover have "{c. (j, c) \<in> set (requests ffs iconToCodepoint icon)} = (if j = 0 then {cp} else {})"
    using False cp by (auto simp: requests_def)
  ultimately show ?thesis by auto
qed

lemma forIcons_dom:
  assumes ne: "ffs \<noteq> []"
  shows "forIcons (iconStep ffs iconToCodepoint) icons s = Inr s' \<Longrightarrow>
     dom (oldCodepointsToNew s' j) =
       dom (oldCodepointsToNew s j)
         \<union> {cp. (j, cp) \<in> set (concat (map (requests ffs iconToCodepoint) icons))}"
proof (induction icons arbitrary: s)
  case Nil
  then show ?case by simp
next
  case (Cons icon icons)
  from Cons.prems obtain s1 where s1: "iconStep ffs iconToCodepoint icon s = Inr s1"
      "forIcons (iconStep ffs iconToCodepoint) icons s1 = Inr s'"
    by (auto split: sum.splits)
  show ?case
    unfolding Cons.IH[OF s1(2)] iconStep_dom[OF ne s1(1)] by auto
qed

lemma set_requestedFrom:
  "set (requestedFrom ffs iconToCodepoint icons k)
     = {cp. (k, cp) \<in> set (concat (map (requests ffs iconToCodepoint) icons))}"
  unfolding requestedFrom_def by force

lemma minify_run_dom:
  assumes "minify_run ffs icons iconToCodepoint base = Inr s"
  shows "dom (oldCodepointsToNew s k) = set (requestedFrom ffs iconToCodepoint icons k)"
proof -
  have ne: "ffs \<noteq> []" using assms by (auto simp: minify_run_def split: if_splits)
  with assms have "forIcons (iconStep ffs iconToCodepoint) icons (initState base) = Inr s"
    by (simp add: minify_run_iconStep)
  from forIcons_dom[OF ne this, of k] show ?thesis
    by (simp add: set_requestedFrom initState_def)
qed

subsection \<open>Counting the packed glyphs of one descriptor\<close>

lemma count_glyphs:
  assumes inv: "counter_inv base s"
  shows "length (filter (\<lambda>g. \<exists>cp n. oldCodepointsToNew s k cp = Some n \<and> unicode g = [n]) (glyfs s))
           = card (dom (oldCodepointsToNew s k))"
proof -
  let ?m = "oldCodepointsToNew s k"
  let ?c = "newCodepoint_value s"
  have "length (filter (\<lambda>g. \<exists>cp n. ?m cp = Some n \<and> unicode g = [n]) (glyfs s))
      = length (filter (\<lambda>u. \<exists>cp n. ?m cp = Some n \<and> u = [n]) (map unicode (glyfs s)))"
    by (simp add: filter_map comp_def)
  also have "\<dots> = length (filter (\<lambda>u. \<exists>cp n. ?m cp = Some n \<and> u = [n]) (map (\<lambda>n. [n]) [base..<?c]))"
    by (simp only: counter_invD(2)[OF inv])
  also have "\<dots> = length (filter (\<lambda>n. \<exists>cp. ?m cp = Some n) [base..<?c])"
    by (simp add: filter_map comp_def)
  also have "\<dots> = card (set (filter (\<lambda>n. \<exists>cp. ?m cp = Some n) [base..<?c]))"
    by (rule distinct_card[symmetric]) simp
  also have "set (filter (\<lambda>n. \<exists>cp. ?m cp = Some n) [base..<?c]) = ran ?m"
    using counter_invD(3)[OF inv] by (auto simp: ran_def)
  also have "ran ?m = (\<lambda>cp. the (?m cp)) ` dom ?m"
    by (force simp: ran_def dom_def)
  also have "card ((\<lambda>cp. the (?m cp)) ` dom ?m) = card (dom ?m)"
  proof (rule card_image)
    show "inj_on (\<lambda>cp. the (?m cp)) (dom ?m)"
    proof (rule inj_onI)
      fix x y assume "x \<in> dom ?m" "y \<in> dom ?m" "the (?m x) = the (?m y)"
      then obtain n where "?m x = Some n" "?m y = Some n" by auto
      with counter_invD(4)[OF inv] show "x = y" by blast
    qed
  qed
  finally show ?thesis .
qed

subsection \<open>Every packed glyph belongs to a request\<close>

lemma attrib_invD:
  assumes "attrib_inv base ffs s"
  shows "counter_inv base s"
    and "\<And>n. base \<le> n \<Longrightarrow> n < newCodepoint_value s \<Longrightarrow>
           \<exists>k cp. k < length ffs \<and> oldCodepointsToNew s k cp = Some n"
  using assms unfolding attrib_inv_def by blast+

lemma attrib_inv_init: "attrib_inv base ffs (initState base)"
  by (simp add: attrib_inv_def counter_inv_init) (simp add: initState_def)

lemma attrib_inv_addGlyph:
  assumes inv: "attrib_inv base ffs s" and a: "addGlyph ffs k cp s = (r, s')"
    and b: "0 < base" and k: "k < length ffs"
  shows "attrib_inv base ffs s'"
proof -
  note c = attrib_invD(1)[OF inv]
  have c': "counter_inv base s'" using counter_inv_addGlyph(1)[OF c a] .
  from a show ?thesis
  proof (cases rule: addGlyph_cases)
    case missing
    with inv show ?thesis by simp
  next
    case reuse
    with inv show ?thesis by simp
  next
    case fresh
    have none: "oldCodepointsToNew s k cp = None"
      using fresh(2) falsy_recorded[OF c b] by simp
    have "\<forall>n. base \<le> n \<and> n < newCodepoint_value s' \<longrightarrow>
             (\<exists>k' cp'. k' < length ffs \<and> oldCodepointsToNew s' k' cp' = Some n)"
    proof (intro allI impI)
      fix n assume n: "base \<le> n \<and> n < newCodepoint_value s'"
      show "\<exists>k' cp'. k' < length ffs \<and> oldCodepointsToNew s' k' cp' = Some n"
      proof (cases "n = newCodepoint_value s")
        case True
        with fresh k show ?thesis by (intro exI[of _ k] exI[of _ cp]) simp
      next
        case False
        with n fresh have "base \<le> n" "n < newCodepoint_value s" by auto
        from attrib_invD(2)[OF inv this] obtain k' cp' where
          o: "k' < length ffs" "oldCodepointsToNew s k' cp' = Some n" by blast
        with none have "\<not> (k' = k \<and> cp' = cp)" by auto
        with o fresh have "oldCodepointsToNew s' k' cp' = Some n" by auto
        with o(1) show ?thesis by blast
      qed
    qed
    with c' show ?thesis by (simp add: attrib_inv_def)
  qed
qed

lemma attrib_inv_registerMapping:
  assumes "attrib_inv base ffs s" "base \<le> n" "n < newCodepoint_value s"
  shows "attrib_inv base ffs (registerMapping n icon s)"
  using assms counter_inv_registerMapping[of base s n icon]
  by (simp add: attrib_inv_def registerMapping_fields)

lemma attrib_inv_fold_registerMapping:
  assumes "attrib_inv base ffs s" "base \<le> n" "n < newCodepoint_value s"
  shows "attrib_inv base ffs (fold (\<lambda>c. registerMapping n (f c)) cs s)"
  using assms
  by (induction cs arbitrary: s) (simp_all add: attrib_inv_registerMapping registerMapping_fields)

lemma attrib_inv_useFont:
  assumes inv: "attrib_inv base ffs s" and u: "useFont ffs k cp icon s = Inr s'"
    and b: "0 < base" and k: "k < length ffs"
  shows "attrib_inv base ffs s'"
proof -
  obtain r s1 where a: "addGlyph ffs k cp s = (r, s1)" by (cases "addGlyph ffs k cp s")
  with u have nf: "\<not> falsy r" and s': "s' = registerMapping (the r) icon s1"
    by (auto simp: useFont_def split: if_splits)
  from nf obtain n where n: "r = Some n" by (auto simp: not_falsy_iff)
  have 1: "attrib_inv base ffs s1" using attrib_inv_addGlyph[OF inv a b k] .
  have 2: "base \<le> n" "n < newCodepoint_value s1"
    using counter_inv_addGlyph(2)[OF attrib_invD(1)[OF inv] a] n by auto
  show ?thesis unfolding s' using n attrib_inv_registerMapping[OF 1 2] by simp
qed

lemma attrib_inv_expandInto:
  assumes inv: "attrib_inv base ffs s" and b: "0 < base" and k: "k < length ffs"
  shows "attrib_inv base ffs (expandInto ffs cp icon k s)"
proof -
  obtain r s1 where a: "addGlyph ffs k cp s = (r, s1)" by (cases "addGlyph ffs k cp s")
  have 1: "attrib_inv base ffs s1" using attrib_inv_addGlyph[OF inv a b k] .
  show ?thesis
  proof (cases "falsy r")
    case True
    with a 1 show ?thesis by (simp add: expandInto_def)
  next
    case False
    then obtain n where n: "r = Some n" by (auto simp: not_falsy_iff)
    have 2: "base \<le> n" "n < newCodepoint_value s1"
      using counter_inv_addGlyph(2)[OF attrib_invD(1)[OF inv] a] n by auto
    have "attrib_inv base ffs (fold (\<lambda>cls. registerMapping n (icon\<lparr>modifiers := modifiers icon @ [cls]\<rparr>))
                 (clss (ffs ! k)) s1)"
      using 1 2 by (rule attrib_inv_fold_registerMapping)
    with a False n show ?thesis by (simp add: expandInto_def)
  qed
qed

lemma minify_run_attrib:
  assumes b: "0 < base" and run: "minify_run ffs icons iconToCodepoint base = Inr s"
  shows "attrib_inv base ffs s"
proof (rule minify_run_preserves[where P = "attrib_inv base ffs", OF _ _ attrib_inv_init run])
  show "\<And>k cp icon s s'. k < length ffs \<Longrightarrow> attrib_inv base ffs s \<Longrightarrow> useFont ffs k cp icon s = Inr s'
      \<Longrightarrow> attrib_inv base ffs s'"
    using attrib_inv_useFont b by blast
  show "\<And>k cp icon s. k < length ffs \<Longrightarrow> attrib_inv base ffs s
      \<Longrightarrow> attrib_inv base ffs (expandInto ffs cp icon k s)"
    using attrib_inv_expandInto b by blast
qed


subsection \<open>Every icon is registered under the codepoint of its request\<close>

lemma registered_iff:
  "registered s k cp x \<longleftrightarrow>
     (\<exists>n l. n \<noteq> 0 \<and> oldCodepointsToNew s k cp = Some n
        \<and> map_of (newCodepointsToClasses s) n = Some l \<and> x \<in> set l)"
  by (auto simp: registered_def split: option.splits)

lemma registered_addGlyph:
  assumes inv: "counter_inv base s" and b: "0 < base" and a: "addGlyph ffs k' cp' s = (r, s1)"
    and reg: "registered s k cp x"
  shows "registered s1 k cp x"
  using a
proof (cases rule: addGlyph_cases)
  case missing
  with reg show ?thesis by simp
next
  case reuse
  with reg show ?thesis by simp
next
  case fresh
  have none: "oldCodepointsToNew s k' cp' = None"
    using fresh(2) falsy_recorded[OF inv b] by simp
  from reg obtain n l where n: "n \<noteq> 0" "oldCodepointsToNew s k cp = Some n"
      "map_of (newCodepointsToClasses s) n = Some l" "x \<in> set l"
    by (auto simp: registered_iff)
  with none have "\<not> (k = k' \<and> cp = cp')" by auto
  with n(2) fresh have "oldCodepointsToNew s1 k cp = Some n" by auto
  with n fresh show ?thesis by (auto simp: registered_iff)
qed

lemma registered_registerMapping:
  assumes "registered s k cp x"
  shows "registered (registerMapping m ic s) k cp x"
proof -
  from assms obtain n l where n: "n \<noteq> 0" "oldCodepointsToNew s k cp = Some n"
      "map_of (newCodepointsToClasses s) n = Some l" "x \<in> set l"
    by (auto simp: registered_iff)
  show ?thesis
  proof (cases "n = m")
    case True
    with n have "map_of (newCodepointsToClasses (registerMapping m ic s)) n = Some (l @ [toIconSelector ic])"
      by (simp add: registerMapping_map_of)
    with n show ?thesis unfolding registered_iff
      by (intro exI[of _ n] exI[of _ "l @ [toIconSelector ic]"]) (simp add: registerMapping_fields)
  next
    case False
    with n have "map_of (newCodepointsToClasses (registerMapping m ic s)) n = Some l"
      by (simp add: registerMapping_map_of)
    with n show ?thesis unfolding registered_iff
      by (intro exI[of _ n] exI[of _ l]) (simp add: registerMapping_fields)
  qed
qed

lemma registered_new:
  assumes "oldCodepointsToNew s k cp = Some n" "n \<noteq> 0"
  shows "registered (registerMapping n ic s) k cp (toIconSelector ic)"
  unfolding registered_iff using assms
  by (intro exI[of _ n]
        exI[of _ "(case map_of (newCodepointsToClasses s) n of None \<Rightarrow> [] | Some l \<Rightarrow> l) @ [toIconSelector ic]"])
     (simp add: registerMapping_fields registerMapping_map_of)

lemma registered_fold_keep:
  "registered s k cp x \<Longrightarrow> registered (fold (\<lambda>c. registerMapping m (f c)) cs s) k cp x"
  by (induction cs arbitrary: s) (simp_all add: registered_registerMapping)

lemma registered_fold_new:
  assumes "oldCodepointsToNew s k cp = Some n" "n \<noteq> 0" "c \<in> set cs"
  shows "registered (fold (\<lambda>c. registerMapping n (f c)) cs s) k cp (toIconSelector (f c))"
  using assms
proof (induction cs arbitrary: s)
  case Nil
  then show ?case by simp
next
  case (Cons d cs)
  show ?case
  proof (cases "c = d")
    case True
    have "registered (registerMapping n (f d) s) k cp (toIconSelector (f d))"
      using Cons.prems(1,2) by (rule registered_new)
    then have "registered (fold (\<lambda>c. registerMapping n (f c)) cs (registerMapping n (f d) s)) k cp
        (toIconSelector (f d))"
      by (rule registered_fold_keep)
    with True show ?thesis by simp
  next
    case False
    with Cons.prems(3) have "c \<in> set cs" by simp
    moreover have "oldCodepointsToNew (registerMapping n (f d) s) k cp = Some n"
      using Cons.prems(1) by (simp add: registerMapping_fields)
    ultimately have "registered (fold (\<lambda>c. registerMapping n (f c)) cs (registerMapping n (f d) s)) k cp
        (toIconSelector (f c))"
      using Cons.IH Cons.prems(2) by blast
    then show ?thesis by simp
  qed
qed

lemma registered_useFont_keep:
  assumes inv: "counter_inv base s" and b: "0 < base" and u: "useFont ffs k' cp' icon s = Inr s'"
    and reg: "registered s k cp x"
  shows "registered s' k cp x"
proof -
  obtain r s1 where a: "addGlyph ffs k' cp' s = (r, s1)" by (cases "addGlyph ffs k' cp' s")
  with u have s': "s' = registerMapping (the r) icon s1"
    by (auto simp: useFont_def split: if_splits)
  have "registered s1 k cp x" using registered_addGlyph[OF inv b a reg] .
  then show ?thesis unfolding s' by (rule registered_registerMapping)
qed

lemma registered_useFont_new:
  assumes u: "useFont ffs k cp icon s = Inr s'"
  shows "registered s' k cp (toIconSelector icon)"
proof -
  from useFont_outcome(3)[OF u] obtain n where "n \<noteq> 0" "oldCodepointsToNew s' k cp = Some n"
      "map_of (newCodepointsToClasses s') n
         = Some ((case map_of (newCodepointsToClasses s) n of None \<Rightarrow> [] | Some l \<Rightarrow> l) @ [toIconSelector icon])"
    by blast
  then show ?thesis unfolding registered_iff
    by (intro exI[of _ n]
        exI[of _ "(case map_of (newCodepointsToClasses s) n of None \<Rightarrow> [] | Some l \<Rightarrow> l) @ [toIconSelector icon]"])
       simp
qed

lemma registered_expandInto_keep:
  assumes inv: "counter_inv base s" and b: "0 < base" and reg: "registered s k cp x"
  shows "registered (expandInto ffs cp' icon k' s) k cp x"
proof -
  obtain r s1 where a: "addGlyph ffs k' cp' s = (r, s1)" by (cases "addGlyph ffs k' cp' s")
  have 1: "registered s1 k cp x" using registered_addGlyph[OF inv b a reg] .
  show ?thesis
  proof (cases "falsy r")
    case True
    with a 1 show ?thesis by (simp add: expandInto_def)
  next
    case False
    have "registered (fold (\<lambda>cls. registerMapping (the r) (icon\<lparr>modifiers := modifiers icon @ [cls]\<rparr>))
                 (clss (ffs ! k')) s1) k cp x"
      using 1 by (rule registered_fold_keep)
    with a False show ?thesis by (simp add: expandInto_def)
  qed
qed

lemma registered_expandInto_new:
  assumes inv: "counter_inv base s" and b: "0 < base"
    and g: "font (ffs ! k) cp \<noteq> []" and c: "cls \<in> set (clss (ffs ! k))"
  shows "registered (expandInto ffs cp icon k s) k cp (toIconSelector (derivedIcon icon cls))"
proof -
  obtain r s1 where a: "addGlyph ffs k cp s = (r, s1)" by (cases "addGlyph ffs k cp s")
  have "\<exists>n. n \<noteq> 0 \<and> r = Some n \<and> oldCodepointsToNew s1 k cp = Some n"
    using a
  proof (cases rule: addGlyph_cases)
    case missing
    with g show ?thesis by simp
  next
    case reuse
    then show ?thesis by (auto simp: not_falsy_iff)
  next
    case fresh
    have "newCodepoint_value s \<noteq> 0" using counter_invD(1)[OF inv] b by simp
    with fresh show ?thesis by simp
  qed
  then obtain n where n: "n \<noteq> 0" "r = Some n" "oldCodepointsToNew s1 k cp = Some n" by blast
  have "registered (fold (\<lambda>cls. registerMapping n (derivedIcon icon cls)) (clss (ffs ! k)) s1) k cp
      (toIconSelector (derivedIcon icon cls))"
    using n(3,1) c by (rule registered_fold_new)
  with a n show ?thesis by (simp add: expandInto_def falsy_def derivedIcon_def)
qed

lemma registered_fold_expandInto:
  assumes b: "0 < base"
  shows "counter_inv base s \<Longrightarrow>
     counter_inv base (fold (expandInto ffs cp' icon) ks s)
     \<and> (\<forall>x. registered s k cp x \<longrightarrow> registered (fold (expandInto ffs cp' icon) ks s) k cp x)
     \<and> (k \<in> set ks \<and> cp = cp' \<and> font (ffs ! k) cp \<noteq> [] \<and> cls \<in> set (clss (ffs ! k)) \<longrightarrow>
          registered (fold (expandInto ffs cp' icon) ks s) k cp (toIconSelector (derivedIcon icon cls)))"
proof (induction ks arbitrary: s)
  case Nil
  then show ?case by simp
next
  case (Cons j ks)
  let ?s1 = "expandInto ffs cp' icon j s"
  have i1: "counter_inv base ?s1" using Cons.prems by (rule counter_inv_expandInto)
  note IH = Cons.IH[OF i1]
  have keep: "\<And>y. registered ?s1 k cp y \<Longrightarrow> registered (fold (expandInto ffs cp' icon) ks ?s1) k cp y"
  proof -
    fix y assume r: "registered ?s1 k cp y"
    with IH show "registered (fold (expandInto ffs cp' icon) ks ?s1) k cp y" by blast
  qed
  have 1: "counter_inv base (fold (expandInto ffs cp' icon) (j # ks) s)" using IH by simp
  have 2: "\<forall>x. registered s k cp x \<longrightarrow> registered (fold (expandInto ffs cp' icon) (j # ks) s) k cp x"
  proof (intro allI impI)
    fix x assume "registered s k cp x"
    then have "registered ?s1 k cp x" using registered_expandInto_keep[OF Cons.prems b] by blast
    then show "registered (fold (expandInto ffs cp' icon) (j # ks) s) k cp x" using keep by simp
  qed
  have 3: "k \<in> set (j # ks) \<and> cp = cp' \<and> font (ffs ! k) cp \<noteq> [] \<and> cls \<in> set (clss (ffs ! k)) \<longrightarrow>
          registered (fold (expandInto ffs cp' icon) (j # ks) s) k cp (toIconSelector (derivedIcon icon cls))"
  proof
    assume h: "k \<in> set (j # ks) \<and> cp = cp' \<and> font (ffs ! k) cp \<noteq> [] \<and> cls \<in> set (clss (ffs ! k))"
    show "registered (fold (expandInto ffs cp' icon) (j # ks) s) k cp (toIconSelector (derivedIcon icon cls))"
    proof (cases "k = j")
      case True
      from h have hh: "cp = cp'" "font (ffs ! k) cp \<noteq> []" "cls \<in> set (clss (ffs ! k))" by blast+
      have "registered (expandInto ffs cp icon k s) k cp (toIconSelector (derivedIcon icon cls))"
        using Cons.prems b hh(2,3) by (rule registered_expandInto_new)
      then have "registered ?s1 k cp (toIconSelector (derivedIcon icon cls))"
        using hh(1) True by simp
      then show ?thesis using keep by simp
    next
      case False
      with h have "k \<in> set ks" by simp
      with h IH have "registered (fold (expandInto ffs cp' icon) ks ?s1) k cp
          (toIconSelector (derivedIcon icon cls))"
        by blast
      then show ?thesis by simp
    qed
  qed
  show ?case using 1 2 3 by blast
qed

lemma iconStep_counter_inv:
  assumes "counter_inv base s" "iconStep ffs iconToCodepoint icon s = Inr s'"
  shows "counter_inv base s'"
proof (cases "length ffs > 1")
  case True
  with assms(2) have m: "minifyIconMulti ffs iconToCodepoint icon s = Inr s'" by (simp add: iconStep_def)
  show ?thesis
  proof (cases "matching ffs icon")
    case Nil
    with m have "s' = fold (expandInto ffs (the (iconToCodepoint (name icon))) icon) [0..<length ffs] s"
      by (auto simp: minifyIconMulti_def Let_def split: if_splits)
    moreover have "counter_inv base (fold (expandInto ffs (the (iconToCodepoint (name icon))) icon) [0..<length ffs] s)"
      by (rule fold_preserves[where P = "counter_inv base"]) (use assms(1) counter_inv_expandInto in auto)
    ultimately show ?thesis by simp
  next
    case (Cons k ks)
    with m have "useFont ffs k (the (iconToCodepoint (name icon))) icon s = Inr s'"
      by (auto simp: minifyIconMulti_def Let_def split: if_splits)
    with assms(1) show ?thesis by (rule counter_inv_useFont)
  qed
next
  case False
  with assms(2) have "useFont ffs 0 (the (iconToCodepoint (name icon))) icon s = Inr s'"
    by (auto simp: iconStep_def minifyIconSingle_def split: if_splits)
  with assms(1) show ?thesis by (rule counter_inv_useFont)
qed

lemma iconStep_registered_keep:
  assumes inv: "counter_inv base s" and b: "0 < base"
    and st: "iconStep ffs iconToCodepoint icon s = Inr s'" and reg: "registered s k cp x"
  shows "registered s' k cp x"
proof (cases "length ffs > 1")
  case True
  with st have m: "minifyIconMulti ffs iconToCodepoint icon s = Inr s'" by (simp add: iconStep_def)
  show ?thesis
  proof (cases "matching ffs icon")
    case Nil
    with m have "s' = fold (expandInto ffs (the (iconToCodepoint (name icon))) icon) [0..<length ffs] s"
      by (auto simp: minifyIconMulti_def Let_def split: if_splits)
    with registered_fold_expandInto[OF b inv, of ffs "the (iconToCodepoint (name icon))" icon
        "[0..<length ffs]" k cp] reg
    show ?thesis by blast
  next
    case (Cons j ks)
    with m have "useFont ffs j (the (iconToCodepoint (name icon))) icon s = Inr s'"
      by (auto simp: minifyIconMulti_def Let_def split: if_splits)
    from registered_useFont_keep[OF inv b this reg] show ?thesis .
  qed
next
  case False
  with st have "useFont ffs 0 (the (iconToCodepoint (name icon))) icon s = Inr s'"
    by (auto simp: iconStep_def minifyIconSingle_def split: if_splits)
  from registered_useFont_keep[OF inv b this reg] show ?thesis .
qed

lemma iconStep_registered_new:
  assumes inv: "counter_inv base s" and b: "0 < base"
    and st: "iconStep ffs iconToCodepoint icon s = Inr s'"
    and res: "(k, cp, ic) \<in> set (resolutions ffs iconToCodepoint icon)"
  shows "registered s' k cp (toIconSelector ic)"
proof -
  from res obtain cp0 where cp0: "iconToCodepoint (name icon) = Some cp0"
    by (cases "iconToCodepoint (name icon)") (auto simp: resolutions_def)
  show ?thesis
  proof (cases "length ffs > 1")
    case True
    with st have m: "minifyIconMulti ffs iconToCodepoint icon s = Inr s'" by (simp add: iconStep_def)
    show ?thesis
    proof (cases "matching ffs icon")
      case Nil
      with m cp0 have s': "s' = fold (expandInto ffs cp0 icon) [0..<length ffs] s"
        by (auto simp: minifyIconMulti_def Let_def split: if_splits)
      from res True Nil cp0 obtain cls where
        r: "k < length ffs" "cp = cp0" "font (ffs ! k) cp \<noteq> []" "cls \<in> set (clss (ffs ! k))"
           "ic = derivedIcon icon cls"
        by (auto simp: resolutions_def split: if_splits)
      from registered_fold_expandInto[OF b inv, of ffs cp0 icon "[0..<length ffs]" k cp cls] r
      show ?thesis unfolding s' by simp
    next
      case (Cons j ks)
      with m cp0 have u: "useFont ffs j cp0 icon s = Inr s'"
        by (auto simp: minifyIconMulti_def Let_def split: if_splits)
      from res True Cons cp0 have "k = j" "cp = cp0" "ic = icon"
        by (auto simp: resolutions_def)
      with registered_useFont_new[OF u] show ?thesis by simp
    qed
  next
    case False
    with st cp0 have u: "useFont ffs 0 cp0 icon s = Inr s'"
      by (auto simp: iconStep_def minifyIconSingle_def split: if_splits)
    from res False cp0 have "k = 0" "cp = cp0" "ic = icon"
      by (auto simp: resolutions_def)
    with registered_useFont_new[OF u] show ?thesis by simp
  qed
qed

lemma forIcons_registered:
  assumes b: "0 < base"
  shows "counter_inv base s \<Longrightarrow> forIcons (iconStep ffs iconToCodepoint) icons s = Inr s' \<Longrightarrow>
     (\<forall>x. registered s k cp x \<longrightarrow> registered s' k cp x)
     \<and> ((k, cp, ic) \<in> set (concat (map (resolutions ffs iconToCodepoint) icons)) \<longrightarrow>
          registered s' k cp (toIconSelector ic))"
proof (induction icons arbitrary: s)
  case Nil
  then show ?case by simp
next
  case (Cons icon icons)
  from Cons.prems(2) obtain s1 where s1: "iconStep ffs iconToCodepoint icon s = Inr s1"
      "forIcons (iconStep ffs iconToCodepoint) icons s1 = Inr s'"
    by (auto split: sum.splits)
  have i1: "counter_inv base s1" using iconStep_counter_inv[OF Cons.prems(1) s1(1)] .
  have keep: "\<And>y. registered s1 k cp y \<Longrightarrow> registered s' k cp y"
    using Cons.IH[OF i1 s1(2)] by blast
  have 1: "\<forall>x. registered s k cp x \<longrightarrow> registered s' k cp x"
    using iconStep_registered_keep[OF Cons.prems(1) b s1(1)] keep by blast
  have 2: "(k, cp, ic) \<in> set (concat (map (resolutions ffs iconToCodepoint) (icon # icons))) \<longrightarrow>
          registered s' k cp (toIconSelector ic)"
  proof
    assume "(k, cp, ic) \<in> set (concat (map (resolutions ffs iconToCodepoint) (icon # icons)))"
    then consider "(k, cp, ic) \<in> set (resolutions ffs iconToCodepoint icon)"
      | "(k, cp, ic) \<in> set (concat (map (resolutions ffs iconToCodepoint) icons))"
      by auto
    then show "registered s' k cp (toIconSelector ic)"
    proof cases
      case 1
      from iconStep_registered_new[OF Cons.prems(1) b s1(1) 1] keep show ?thesis by blast
    next
      case 2
      with Cons.IH[OF i1 s1(2)] show ?thesis by blast
    qed
  qed
  show ?case using 1 2 by blast
qed

text \<open>
  Claim C1. After every successful pass started at a private-use-area base
  (\<open>0 < base\<close>), for every descriptor \<open>k\<close>: the legacy codepoints that \<open>k\<close> has assigned are
  exactly the distinct legacy codepoints requested from it; the packed glyphs carrying a new
  codepoint of \<open>k\<close> are as many as those distinct legacy codepoints, however many icons
  asked for them; every packed glyph carries the new codepoint of some descriptor's
  assignment; and every icon resolved through a pair \<open>(k, cp)\<close> has its selector listed
  under the one new codepoint recorded for \<open>(k, cp)\<close>.
\<close>

theorem one_new_codepoint_per_requested_legacy_codepoint:
  assumes b: "0 < base" and run: "minify_run ffs icons iconToCodepoint base = Inr s"
  shows "dom (oldCodepointsToNew s k) = set (requestedFrom ffs iconToCodepoint icons k)
    \<and> length (filter (\<lambda>g. \<exists>cp n. oldCodepointsToNew s k cp = Some n \<and> unicode g = [n]) (glyfs s))
         = length (requestedFrom ffs iconToCodepoint icons k)
    \<and> (\<forall>g\<in>set (glyfs s). \<exists>k' cp n. k' < length ffs \<and> oldCodepointsToNew s k' cp = Some n \<and> unicode g = [n])
    \<and> (\<forall>r\<in>set (concat (map (resolutions ffs iconToCodepoint) icons)).
          registered s (fst r) (fst (snd r)) (toIconSelector (snd (snd r))))"
proof -
  have ne: "ffs \<noteq> []" using run by (auto simp: minify_run_def split: if_splits)
  with run have f: "forIcons (iconStep ffs iconToCodepoint) icons (initState base) = Inr s"
    by (simp add: minify_run_iconStep)
  note a = minify_run_attrib[OF b run]
  note c = attrib_invD(1)[OF a]
  have 1: "dom (oldCodepointsToNew s k) = set (requestedFrom ffs iconToCodepoint icons k)"
    using run by (rule minify_run_dom)
  have "length (filter (\<lambda>g. \<exists>cp n. oldCodepointsToNew s k cp = Some n \<and> unicode g = [n]) (glyfs s))
      = card (dom (oldCodepointsToNew s k))"
    using c by (rule count_glyphs)
  also have "\<dots> = card (set (requestedFrom ffs iconToCodepoint icons k))" by (simp only: 1)
  also have "\<dots> = length (requestedFrom ffs iconToCodepoint icons k)"
    by (rule distinct_card) (simp add: requestedFrom_def)
  finally have 2: "length (filter (\<lambda>g. \<exists>cp n. oldCodepointsToNew s k cp = Some n \<and> unicode g = [n]) (glyfs s))
         = length (requestedFrom ffs iconToCodepoint icons k)" .
  have 3: "\<forall>g\<in>set (glyfs s). \<exists>k' cp n. k' < length ffs \<and> oldCodepointsToNew s k' cp = Some n \<and> unicode g = [n]"
  proof
    fix g assume "g \<in> set (glyfs s)"
    then have "unicode g \<in> set (map unicode (glyfs s))" by simp
    then have "unicode g \<in> set (map (\<lambda>n. [n]) [base..<newCodepoint_value s])"
      by (simp only: counter_invD(2)[OF c])
    then obtain n where n: "unicode g = [n]" "base \<le> n" "n < newCodepoint_value s" by auto
    from attrib_invD(2)[OF a n(2,3)] n(1)
    show "\<exists>k' cp n. k' < length ffs \<and> oldCodepointsToNew s k' cp = Some n \<and> unicode g = [n]" by blast
  qed
  have 4: "\<forall>r\<in>set (concat (map (resolutions ffs iconToCodepoint) icons)).
          registered s (fst r) (fst (snd r)) (toIconSelector (snd (snd r)))"
  proof
    fix r assume r: "r \<in> set (concat (map (resolutions ffs iconToCodepoint) icons))"
    obtain k' cp ic where e: "r = (k', cp, ic)" by (cases r) auto
    from forIcons_registered[OF b counter_inv_init f, of k' cp ic] r e
    show "registered s (fst r) (fst (snd r)) (toIconSelector (snd (snd r)))" by simp
  qed
  show ?thesis using 1 2 3 4 by (intro conjI)
qed


section \<open>Evaluation of the requests on the example pass\<close>

lemma requestedFrom_fixture:
  "requestedFrom [brands, solid] fa_codepoints crawled 1 = [0xf005, 0xf015, 0xf007]"
  "requestedFrom [brands, solid] fa_codepoints crawled 0 = [0xf1a0, 0xf005]"
  by (simp_all add: requestedFrom_def requests_def matching_def hasIntersection_def intersection_def
      fixture_defs)

lemma resolutions_fixture:
  "(1, 0xf015, \<lparr>name = ''fa-home'', modifiers = [''fas'']\<rparr>)
     \<in> set (concat (map (resolutions [brands, solid] fa_codepoints) crawled))"
  "(1, 0xf015, \<lparr>name = ''fa-house'', modifiers = [''fa-solid'', ''fa-2x'']\<rparr>)
     \<in> set (concat (map (resolutions [brands, solid] fa_codepoints) crawled))"
  by (simp_all add: resolutions_def matching_def hasIntersection_def intersection_def derivedIcon_def
      fixture_defs)

theorem one_new_codepoint_per_requested_legacy_codepoint_witness:
  "(0::nat) < 0xE000
   \<and> (\<exists>s. minify_run [brands, solid] crawled fa_codepoints 0xE000 = Inr s
        \<and> dom (oldCodepointsToNew s 1) = {0xf005, 0xf015, 0xf007}
        \<and> length (filter (\<lambda>g. \<exists>cp n. oldCodepointsToNew s 1 cp = Some n \<and> unicode g = [n]) (glyfs s)) = 3
        \<and> length (filter (\<lambda>g. \<exists>cp n. oldCodepointsToNew s 0 cp = Some n \<and> unicode g = [n]) (glyfs s)) = 2
        \<and> registered s 1 0xf015 ''.fa-home.fas''
        \<and> registered s 1 0xf015 ''.fa-house.fa-solid.fa-2x'')"
proof -
  have b: "(0::nat) < 0xE000" by simp
  obtain s where s: "minify_run [brands, solid] crawled fa_codepoints 0xE000 = Inr s"
    using minify_run_fixture by blast
  note T1 = one_new_codepoint_per_requested_legacy_codepoint[OF b s, of 1, unfolded requestedFrom_fixture]
  note T0 = one_new_codepoint_per_requested_legacy_codepoint[OF b s, of 0, unfolded requestedFrom_fixture]
  have 1: "dom (oldCodepointsToNew s 1) = {0xf005, 0xf015, 0xf007}" using T1 by simp
  have 2: "length (filter (\<lambda>g. \<exists>cp n. oldCodepointsToNew s 1 cp = Some n \<and> unicode g = [n]) (glyfs s)) = 3"
    using T1 by simp
  have 3: "length (filter (\<lambda>g. \<exists>cp n. oldCodepointsToNew s 0 cp = Some n \<and> unicode g = [n]) (glyfs s)) = 2"
    using T0 by simp
  have r: "\<forall>r\<in>set (concat (map (resolutions [brands, solid] fa_codepoints) crawled)).
          registered s (fst r) (fst (snd r)) (toIconSelector (snd (snd r)))"
    using T1 by blast
  have 4: "registered s 1 0xf015 ''.fa-home.fas''"
    using r resolutions_fixture(1) by (fastforce simp: toIconSelector_def)
  have 5: "registered s 1 0xf015 ''.fa-house.fa-solid.fa-2x''"
    using r resolutions_fixture(2) by (fastforce simp: toIconSelector_def)
  have "minify_run [brands, solid] crawled fa_codepoints 0xE000 = Inr s
        \<and> dom (oldCodepointsToNew s 1) = {0xf005, 0xf015, 0xf007}
        \<and> length (filter (\<lambda>g. \<exists>cp n. oldCodepointsToNew s 1 cp = Some n \<and> unicode g = [n]) (glyfs s)) = 3
        \<and> length (filter (\<lambda>g. \<exists>cp n. oldCodepointsToNew s 0 cp = Some n \<and> unicode g = [n]) (glyfs s)) = 2
        \<and> registered s 1 0xf015 ''.fa-home.fas''
        \<and> registered s 1 0xf015 ''.fa-house.fa-solid.fa-2x''"
    using s 1 2 3 4 5 by (intro conjI)
  then show ?thesis using b by blast
qed


section \<open>Why the statements start a pass at a non-zero base\<close>

text \<open>
  \<open>addGlyph\<close> and its callers test new codepoints with \<open>!newcp\<close>, which is also true of the
  codepoint 0. A pass started at base 0 would hand out 0 first, read it as "no glyph" and
  allocate again at the next request for the same pair: the first glyph below has no
  selector, and the legacy codepoint 0xf015 of the solid face has two glyphs. The only call
  of \<open>FontManager.minify\<close>, in \<open>IconMinifier.minify\<close>, passes no base and so starts at
  0xE000.
\<close>

lemma minify_from_base_zero:
  "minify [solid, brands]
     [\<lparr>name = ''fa-home'', modifiers = []\<rparr>, \<lparr>name = ''fa-house'', modifiers = []\<rparr>] fa_codepoints 0
   = Inr ([\<lparr>unicode = [0], outline = ''house''\<rparr>, \<lparr>unicode = [1], outline = ''house''\<rparr>],
          [(1, [''.fa-house.fas'', ''.fa-house.fa-solid''])])"
  by (simp add: engine_defs fixture_defs)


end
